theory Spec2Isabelle
  imports Complex_Main "HOL-Library.Sublist"
begin

section \<open>Multi-policy MO Q-learning: the outer-loop coordinator\<close>

text \<open>
  A shallow embedding of \<^verbatim>\<open>MPMOQLearning\<close>
  (\<^verbatim>\<open>morl_baselines/multi_policy/multi_policy_moqlearning/mp_mo_q_learning.py\<close>).
  A Python float is modelled by the real number it denotes (no NaN, no infinity); the
  coordinator compares floats and does no arithmetic on them but through
  \<^verbatim>\<open>np.dot\<close>, whose value is a parameter of the model. One-dimensional
  numpy arrays are lists, Python exceptions values of \<open>error\<close>. The classes and
  functions the file imports (\<^verbatim>\<open>MOQLearning\<close>, \<^verbatim>\<open>LinearSupport\<close>,
  \<^verbatim>\<open>policy_evaluation_mo\<close>, \<^verbatim>\<open>random_weights\<close>, the logger) are
  parameters of the model, collected in the record \<open>collab\<close>.
\<close>

subsection \<open>Exceptions and numpy primitives\<close>

datatype error = AssertionError | ValueError | IndexError | UnboundLocalError

type_synonym vec = "real list"
type_synonym obs = "real list"
type_synonym addr = nat

text \<open>A list comprehension whose body may raise: the first exception ends it.\<close>

fun list_comp :: "('a \<Rightarrow> error + 'b) \<Rightarrow> 'a list \<Rightarrow> error + 'b list" where
  "list_comp f [] = Inr []"
| "list_comp f (x # xs) =
     (case f x of
        Inl e \<Rightarrow> Inl e
      | Inr y \<Rightarrow> (case list_comp f xs of Inl e \<Rightarrow> Inl e | Inr ys \<Rightarrow> Inr (y # ys)))"

text \<open>
  \<^verbatim>\<open>np.dot\<close> of two one-dimensional arrays: a \<^verbatim>\<open>ValueError\<close> (shapes
  not aligned) when the lengths differ, and otherwise the number numpy computes for the
  inner product. That number is the float64 result, rounded as numpy rounds it; it is
  not the exact inner product, so it is left to the function \<open>dot_value\<close> given.
\<close>

definition np_dot :: "(vec \<Rightarrow> vec \<Rightarrow> real) \<Rightarrow> vec \<Rightarrow> vec \<Rightarrow> error + real" where
  "np_dot dot_value a b =
     (if length a = length b then Inr (dot_value a b) else Inl ValueError)"

text \<open>
  \<^verbatim>\<open>np.stack\<close> of a list of one-dimensional arrays: a two-dimensional array,
  kept as its shape and its rows. It raises \<^verbatim>\<open>ValueError\<close> on an empty list
  and on arrays of different shapes.
\<close>

type_synonym ndarray2 = "(nat \<times> nat) \<times> vec list"

definition np_stack :: "vec list \<Rightarrow> error + ndarray2" where
  "np_stack arrays =
     (case arrays of
        [] \<Rightarrow> Inl ValueError
      | r # rs \<Rightarrow>
          if list_all (\<lambda>x. length x = length r) rs
          then Inr ((length arrays, length r), arrays)
          else Inl ValueError)"

text \<open>
  \<^verbatim>\<open>np.argmax\<close> scans the flattened array once and keeps the first position of
  the greatest element; it raises \<^verbatim>\<open>ValueError\<close> on an empty sequence.
\<close>

fun argmax_scan :: "real list \<Rightarrow> nat \<Rightarrow> real \<Rightarrow> nat \<Rightarrow> nat" where
  "argmax_scan [] i best bi = bi"
| "argmax_scan (x # xs) i best bi =
     (if best < x then argmax_scan xs (Suc i) x i else argmax_scan xs (Suc i) best bi)"

definition np_argmax :: "real list \<Rightarrow> error + nat" where
  "np_argmax xs =
     (case xs of [] \<Rightarrow> Inl ValueError | x # rest \<Rightarrow> Inr (argmax_scan rest 1 x 0))"

text \<open>\<^verbatim>\<open>np.unravel_index\<close> for a two-dimensional shape, in row-major order.\<close>

definition np_unravel_index :: "nat \<Rightarrow> nat \<times> nat \<Rightarrow> error + nat \<times> nat" where
  "np_unravel_index i shape =
     (case shape of (n, m) \<Rightarrow>
        if i < n * m then Inr (i div m, i mod m) else Inl ValueError)"

subsection \<open>Python lists\<close>

text \<open>\<^verbatim>\<open>xs[i]\<close> for a non-negative index.\<close>

definition list_get :: "'a list \<Rightarrow> nat \<Rightarrow> error + 'a" where
  "list_get xs i = (if i < length xs then Inr (xs ! i) else Inl IndexError)"

text \<open>
  \<^verbatim>\<open>xs.pop(i)\<close>: a negative index counts from the end; an index out of range
  raises \<^verbatim>\<open>IndexError\<close> and leaves the list as it is.
\<close>

definition list_pop :: "'a list \<Rightarrow> int \<Rightarrow> error + 'a \<times> 'a list" where
  "list_pop xs i =
     (let n = int (length xs); j = (if i < 0 then i + n else i)
      in if 0 \<le> j \<and> j < n
         then Inr (xs ! nat j, take (nat j) xs @ drop (Suc (nat j)) xs)
         else Inl IndexError)"

text \<open>\<^verbatim>\<open>sorted(xs, reverse=True)\<close> on integers.\<close>

definition sorted_reverse :: "int list \<Rightarrow> int list" where
  "sorted_reverse xs = rev (sort xs)"

text \<open>
  The loop \<^verbatim>\<open>for i in idx: xs.pop(i)\<close>. An exception leaves the list with the
  entries popped so far removed, so the list is returned together with the exception.
\<close>

fun pop_each :: "'a list \<Rightarrow> int list \<Rightarrow> error option \<times> 'a list" where
  "pop_each xs [] = (None, xs)"
| "pop_each xs (i # idx) =
     (case list_pop xs i of
        Inl e \<Rightarrow> (Some e, xs)
      | Inr (_, xs') \<Rightarrow> pop_each xs' idx)"

subsection \<open>The heap of value tables\<close>

text \<open>
  Modelled from the spec: the sub-policy class \<^verbatim>\<open>MOQLearning\<close> is not part of
  this file; the spec gives it an identifier, the weight vector it was trained for, a
  mutable value-table and a step counter. The value-table is a dictionary object whose
  entries refer to array objects (one matrix of Q-values per visited state), so tables
  live in a heap: \<open>dicts\<close> and \<open>arrays\<close> give the contents of the dictionary and
  array objects by address, and \<open>fresh\<close> is the next unused address.
\<close>

record heap =
  dicts :: "addr \<Rightarrow> (obs \<times> addr) list"
  arrays :: "addr \<Rightarrow> real list list"
  fresh :: addr

record MOQLearning =
  agent_id :: nat
  weights :: vec
  q_table :: addr
  agent_global_step :: nat

text \<open>
  Modelled from the spec: the constructor \<^verbatim>\<open>MOQLearning(env, id, weights, ...)\<close>
  gives the new sub-policy its identifier and weight vector, an empty value-table of
  its own and a step counter at zero.
\<close>

definition MOQLearning_init :: "nat \<Rightarrow> vec \<Rightarrow> heap \<Rightarrow> MOQLearning \<times> heap" where
  "MOQLearning_init ident w h =
     (\<lparr>agent_id = ident, weights = w, q_table = fresh h, agent_global_step = 0\<rparr>,
      h\<lparr>dicts := (dicts h)(fresh h := []), fresh := Suc (fresh h)\<rparr>)"

text \<open>
  \<^verbatim>\<open>copy.deepcopy\<close> of a value-table. The new dictionary is allocated first, then
  each entry's array is copied to a new address; the memo maps an array already copied
  to its copy, so that entries sharing one array share one copy.
\<close>

fun deepcopy_items ::
  "(obs \<times> addr) list \<Rightarrow> (addr \<times> addr) list \<Rightarrow> heap \<Rightarrow>
     (obs \<times> addr) list \<times> (addr \<times> addr) list \<times> heap" where
  "deepcopy_items [] memo h = ([], memo, h)"
| "deepcopy_items ((k, a) # kvs) memo h =
     (case map_of memo a of
        Some a' \<Rightarrow>
          (case deepcopy_items kvs memo h of
             (kvs', memo', h') \<Rightarrow> ((k, a') # kvs', memo', h'))
      | None \<Rightarrow>
          (let a' = fresh h;
               h1 = h\<lparr>arrays := (arrays h)(a' := arrays h a), fresh := Suc a'\<rparr>
           in case deepcopy_items kvs ((a, a') # memo) h1 of
                (kvs', memo', h') \<Rightarrow> ((k, a') # kvs', memo', h')))"

definition deepcopy :: "heap \<Rightarrow> addr \<Rightarrow> addr \<times> heap" where
  "deepcopy h d =
     (let d' = fresh h;
          h0 = h\<lparr>dicts := (dicts h)(d' := []), fresh := Suc d'\<rparr>
      in case deepcopy_items (dicts h d) [] h0 of
           (kvs', _, h') \<Rightarrow> (d', h'\<lparr>dicts := (dicts h')(d' := kvs')\<rparr>))"

text \<open>What a table holds: its keys with the contents of their arrays.\<close>

definition table_contents :: "heap \<Rightarrow> addr \<Rightarrow> (obs \<times> real list list) list" where
  "table_contents h d = map (\<lambda>(k, a). (k, arrays h a)) (dicts h d)"

text \<open>The objects a table is made of: the dictionary and the arrays it refers to.\<close>

definition table_objects :: "heap \<Rightarrow> addr \<Rightarrow> addr set" where
  "table_objects h d = insert d (snd ` set (dicts h d))"

text \<open>In-place writes: \<^verbatim>\<open>q_table[k] = arr\<close> and \<^verbatim>\<open>arr[...] = m\<close>.\<close>

definition dict_write :: "heap \<Rightarrow> addr \<Rightarrow> (obs \<times> addr) list \<Rightarrow> heap" where
  "dict_write h d kvs = h\<lparr>dicts := (dicts h)(d := kvs)\<rparr>"

definition array_write :: "heap \<Rightarrow> addr \<Rightarrow> real list list \<Rightarrow> heap" where
  "array_write h a m = h\<lparr>arrays := (arrays h)(a := m)\<rparr>"

subsection \<open>The collaborators\<close>

text \<open>
  The frontier service (\<^verbatim>\<open>LinearSupport\<close>, with its state \<open>'fs\<close>), the
  sub-policy's methods, the evaluation rollouts, the random source and the logger are
  outside this file. \<open>'e\<close> is the state of the outside world they act on (the
  environments, the random generator, the logging sink). An agent is handed to
  \<^verbatim>\<open>policy_evaluation_mo\<close> and to \<^verbatim>\<open>next_weight\<close> as its
  \<^verbatim>\<open>eval\<close> method. \<open>dot_value\<close> is the number \<^verbatim>\<open>np.dot\<close> returns for
  two one-dimensional arrays of the same length.
\<close>

record ('fs, 'e) collab =
  LinearSupport_init :: "nat \<Rightarrow> 'fs"
  ccs :: "'fs \<Rightarrow> vec list"
  next_weight ::
    "'fs \<Rightarrow> string \<Rightarrow> (obs \<Rightarrow> vec \<Rightarrow> error + nat) option \<Rightarrow> nat \<Rightarrow> 'e \<Rightarrow> vec \<times> 'fs \<times> 'e"
  add_solution :: "'fs \<Rightarrow> vec \<Rightarrow> vec \<Rightarrow> int list \<times> 'fs"
  random_weights :: "nat \<Rightarrow> 'e \<Rightarrow> vec \<times> 'e"
  equally_spaced_weights :: "nat \<Rightarrow> nat \<Rightarrow> vec list"
  scalarized_q_values :: "MOQLearning \<Rightarrow> heap \<Rightarrow> obs \<Rightarrow> vec \<Rightarrow> error + vec"
  agent_eval :: "MOQLearning \<Rightarrow> heap \<Rightarrow> obs \<Rightarrow> vec \<Rightarrow> error + nat"
  agent_train :: "MOQLearning \<Rightarrow> nat \<Rightarrow> heap \<Rightarrow> 'e \<Rightarrow> MOQLearning \<times> heap \<times> 'e"
  policy_evaluation_mo ::
    "(obs \<Rightarrow> vec \<Rightarrow> error + nat) \<Rightarrow> vec \<Rightarrow> nat \<Rightarrow> 'e \<Rightarrow> error + vec \<times> 'e"
  log_all_multi_policy_metrics :: "vec list \<Rightarrow> nat \<Rightarrow> 'e \<Rightarrow> 'e"
  setup_wandb :: "'e \<Rightarrow> 'e"
  close_wandb :: "'e \<Rightarrow> 'e"
  dot_value :: "vec \<Rightarrow> vec \<Rightarrow> real"

subsection \<open>The coordinator\<close>

text \<open>
  The fields of \<^verbatim>\<open>self\<close> that the methods below read or write, together with
  the heap \<open>mem\<close> and the outside world. The hyper-parameters (learning rate,
  discount, exploration schedule, Dyna settings) are only handed on to the sub-policy
  constructor and are left out. \<open>eval_log\<close> is a history variable, not a field of the
  source: \<open>train\<close> records there each sub-policy it evaluated with the value vector
  the evaluation returned.
\<close>

record ('fs, 'e) MPMOQLearning =
  reward_dim :: nat
  use_gpi_policy :: bool
  transfer_q_table :: bool
  weight_selection_algo :: string
  log_on :: bool
  policies :: "MOQLearning list"
  linear_support :: 'fs
  global_step :: nat
  mem :: heap
  world :: 'e
  eval_log :: "(MOQLearning \<times> vec) list"

text \<open>
  \<^verbatim>\<open>__init__\<close>. The base class \<^verbatim>\<open>MOAgent\<close> is not part of this file:
  its constructor reads the reward dimension off the environment and starts the global
  step counter, the number of environment interactions consumed so far, at zero. The
  constructor of the frontier service and the logger set-up come after the check of
  the strategy name.
\<close>

definition init ::
  "('fs, 'e) collab \<Rightarrow> nat \<Rightarrow> string \<Rightarrow> bool \<Rightarrow> bool \<Rightarrow> bool \<Rightarrow> heap \<Rightarrow> 'e \<Rightarrow>
     error + ('fs, 'e) MPMOQLearning" where
  "init K env_reward_dim algo use_gpi transfer logging h e =
     (if algo \<in> set [''random'', ''ols'', ''gpi-ls'']
      then Inr \<lparr>reward_dim = env_reward_dim, use_gpi_policy = use_gpi,
                transfer_q_table = transfer, weight_selection_algo = algo,
                log_on = logging, policies = [],
                linear_support = LinearSupport_init K env_reward_dim,
                global_step = 0, mem = h,
                world = (if logging then setup_wandb K e else e), eval_log = []\<rparr>
      else Inl AssertionError)"

text \<open>\<^verbatim>\<open>_gpi_action\<close>.\<close>

definition gpi_action ::
  "('fs, 'e) collab \<Rightarrow> ('fs, 'e) MPMOQLearning \<Rightarrow> obs \<Rightarrow> vec \<Rightarrow> error + nat" where
  "gpi_action K s state w =
     (case list_comp (\<lambda>policy. scalarized_q_values K policy (mem s) state w) (policies s) of
        Inl e \<Rightarrow> Inl e
      | Inr rows \<Rightarrow>
          (case np_stack rows of
             Inl e \<Rightarrow> Inl e
           | Inr (shape, q_vals) \<Rightarrow>
               (case np_argmax (concat q_vals) of
                  Inl e \<Rightarrow> Inl e
                | Inr i \<Rightarrow>
                    (case np_unravel_index i shape of
                       Inl e \<Rightarrow> Inl e
                     | Inr (_, action) \<Rightarrow> Inr action))))"

text \<open>\<^verbatim>\<open>eval\<close>.\<close>

definition eval ::
  "('fs, 'e) collab \<Rightarrow> ('fs, 'e) MPMOQLearning \<Rightarrow> obs \<Rightarrow> vec \<Rightarrow> error + nat" where
  "eval K s ob w =
     (if use_gpi_policy s then gpi_action K s ob w
      else
        (case list_comp (\<lambda>v. np_dot (dot_value K) w v) (ccs K (linear_support s)) of
           Inl e \<Rightarrow> Inl e
         | Inr ds \<Rightarrow>
             (case np_argmax ds of
                Inl e \<Rightarrow> Inl e
              | Inr best_policy \<Rightarrow>
                  (case list_get (policies s) best_policy of
                     Inl e \<Rightarrow> Inl e
                   | Inr p \<Rightarrow> agent_eval K p (mem s) ob w))))"

text \<open>
  \<^verbatim>\<open>delete_policies\<close>. The result pairs the exception, if one was raised, with
  the coordinator as the call leaves it.
\<close>

definition delete_policies ::
  "('fs, 'e) MPMOQLearning \<Rightarrow> int list \<Rightarrow> error option \<times> ('fs, 'e) MPMOQLearning" where
  "delete_policies s delete_indx =
     (case pop_each (policies s) (sorted_reverse delete_indx) of
        (r, ps) \<Rightarrow> (r, s\<lparr>policies := ps\<rparr>))"

subsection \<open>The outer training loop\<close>

record train_args =
  num_iterations :: nat
  timesteps_per_iteration :: nat
  eval_weights_number_for_front :: nat
  num_episodes_eval :: nat

text \<open>
  Weight selection, the first statement of the loop body. With a strategy name the two
  tests do not know, \<^verbatim>\<open>w\<close> stays unbound and its first use raises.
\<close>

definition select_weight ::
  "('fs, 'e) collab \<Rightarrow> train_args \<Rightarrow> ('fs, 'e) MPMOQLearning \<Rightarrow>
     error + vec \<times> ('fs, 'e) MPMOQLearning" where
  "select_weight K a s =
     (if weight_selection_algo s = ''ols'' \<or> weight_selection_algo s = ''gpi-ls'' then
        (case next_weight K (linear_support s) (weight_selection_algo s)
                (if weight_selection_algo s = ''gpi-ls'' then Some (eval K s) else None)
                (num_episodes_eval a) (world s) of
           (w, fs', e') \<Rightarrow> Inr (w, s\<lparr>linear_support := fs', world := e'\<rparr>))
      else if weight_selection_algo s = ''random'' then
        (case random_weights K (reward_dim s) (world s) of
           (w, e') \<Rightarrow> Inr (w, s\<lparr>world := e'\<rparr>))
      else Inl UnboundLocalError)"

text \<open>
  The warm start: \<^verbatim>\<open>if self.transfer_q_table and len(self.policies) > 0\<close>, the new
  agent's table becomes a deep copy of the table of the policy at
  \<^verbatim>\<open>np.argmax([np.dot(w, v) for v in self.linear_support.ccs])\<close>.
\<close>

definition transfer ::
  "('fs, 'e) collab \<Rightarrow> ('fs, 'e) MPMOQLearning \<Rightarrow> vec \<Rightarrow> MOQLearning \<Rightarrow>
     error + MOQLearning \<times> ('fs, 'e) MPMOQLearning" where
  "transfer K s w new_agent =
     (if transfer_q_table s \<and> length (policies s) > 0 then
        (case list_comp (\<lambda>v. np_dot (dot_value K) w v) (ccs K (linear_support s)) of
           Inl e \<Rightarrow> Inl e
         | Inr ds \<Rightarrow>
             (case np_argmax ds of
                Inl e \<Rightarrow> Inl e
              | Inr reuse_ind \<Rightarrow>
                  (case list_get (policies s) reuse_ind of
                     Inl e \<Rightarrow> Inl e
                   | Inr src \<Rightarrow>
                       (case deepcopy (mem s) (q_table src) of
                          (d', h') \<Rightarrow> Inr (new_agent\<lparr>q_table := d'\<rparr>, s\<lparr>mem := h'\<rparr>)))))
      else Inr (new_agent, s))"

text \<open>The front handed to the logger in GPI mode: one evaluation of the coordinator per weight.\<close>

fun eval_front ::
  "(vec \<Rightarrow> 'e \<Rightarrow> error + vec \<times> 'e) \<Rightarrow> vec list \<Rightarrow> 'e \<Rightarrow> error + vec list \<times> 'e" where
  "eval_front f [] e = Inr ([], e)"
| "eval_front f (w # ws) e =
     (case f w e of
        Inl x \<Rightarrow> Inl x
      | Inr (v, e1) \<Rightarrow>
          (case eval_front f ws e1 of
             Inl x \<Rightarrow> Inl x
           | Inr (vs, e2) \<Rightarrow> Inr (v # vs, e2)))"

definition log_front ::
  "('fs, 'e) collab \<Rightarrow> train_args \<Rightarrow> vec list \<Rightarrow> ('fs, 'e) MPMOQLearning \<Rightarrow>
     error + ('fs, 'e) MPMOQLearning" where
  "log_front K a eval_weights s =
     (if log_on s then
        (case (if use_gpi_policy s
               then eval_front (\<lambda>w e. policy_evaluation_mo K (eval K s) w (num_episodes_eval a) e)
                      eval_weights (world s)
               else Inr (ccs K (linear_support s), world s)) of
           Inl x \<Rightarrow> Inl x
         | Inr (front, e') \<Rightarrow>
             Inr (s\<lparr>world := log_all_multi_policy_metrics K front (global_step s) e'\<rparr>))
      else Inr s)"

text \<open>
  One pass through the body of \<^verbatim>\<open>for iter in range(num_iterations)\<close>. The pool
  holds a reference to the new agent, so training it changes the last pool entry.
\<close>

definition train_iteration ::
  "('fs, 'e) collab \<Rightarrow> train_args \<Rightarrow> vec list \<Rightarrow> nat \<Rightarrow> ('fs, 'e) MPMOQLearning \<Rightarrow>
     error + ('fs, 'e) MPMOQLearning" where
  "train_iteration K a eval_weights iter s =
     (case select_weight K a s of
        Inl x \<Rightarrow> Inl x
      | Inr (w, s1) \<Rightarrow>
          (case MOQLearning_init iter w (mem s1) of
             (new_agent0, h2) \<Rightarrow>
               (case transfer K (s1\<lparr>mem := h2\<rparr>) w new_agent0 of
                  Inl x \<Rightarrow> Inl x
                | Inr (new_agent1, s3) \<Rightarrow>
                    (case agent_train K (new_agent1\<lparr>agent_global_step := global_step s3\<rparr>)
                            (timesteps_per_iteration a) (mem s3) (world s3) of
                       (new_agent, h5, e5) \<Rightarrow>
                         (let s5 = s3\<lparr>policies := policies s3 @ [new_agent],
                                      global_step := agent_global_step new_agent,
                                      mem := h5, world := e5\<rparr>
                          in case policy_evaluation_mo K (agent_eval K new_agent (mem s5)) w
                                    (num_episodes_eval a) (world s5) of
                               Inl x \<Rightarrow> Inl x
                             | Inr (v, e6) \<Rightarrow>
                                 (case add_solution K (linear_support s5) v w of
                                    (removed_inds, fs7) \<Rightarrow>
                                      (case delete_policies
                                              (s5\<lparr>linear_support := fs7, world := e6,
                                                  eval_log := eval_log s5 @ [(new_agent, v)]\<rparr>)
                                              removed_inds of
                                         (Some x, _) \<Rightarrow> Inl x
                                       | (None, s8) \<Rightarrow> log_front K a eval_weights s8)))))))"

fun train_loop ::
  "('fs, 'e) collab \<Rightarrow> train_args \<Rightarrow> vec list \<Rightarrow> nat list \<Rightarrow> ('fs, 'e) MPMOQLearning \<Rightarrow>
     error + ('fs, 'e) MPMOQLearning" where
  "train_loop K a eval_weights [] s = Inr s"
| "train_loop K a eval_weights (iter # iters) s =
     (case train_iteration K a eval_weights iter s of
        Inl x \<Rightarrow> Inl x
      | Inr s' \<Rightarrow> train_loop K a eval_weights iters s')"

text \<open>
  \<^verbatim>\<open>train\<close>. The writer is set exactly when logging is on, and is closed after
  the last iteration.
\<close>

definition train ::
  "('fs, 'e) collab \<Rightarrow> train_args \<Rightarrow> ('fs, 'e) MPMOQLearning \<Rightarrow>
     error + ('fs, 'e) MPMOQLearning" where
  "train K a s =
     (case train_loop K a
             (equally_spaced_weights K (reward_dim s) (eval_weights_number_for_front a))
             [0..<num_iterations a] s of
        Inl x \<Rightarrow> Inl x
      | Inr s' \<Rightarrow> Inr (if log_on s' then s'\<lparr>world := close_wandb K (world s')\<rparr> else s'))"

subsection \<open>What the coordinator relies on\<close>

text \<open>
  The first position of the greatest element of a list: what \<open>np_argmax\<close> returns.
\<close>

definition first_max :: "real list \<Rightarrow> nat \<Rightarrow> bool" where
  "first_max xs i \<longleftrightarrow>
     i < length xs \<and> list_all (\<lambda>x. x \<le> xs ! i) xs \<and> list_all (\<lambda>x. x < xs ! i) (take i xs)"

text \<open>
  Modelled from the spec: \<^verbatim>\<open>LinearSupport\<close> is not part of this file. The
  frontier service starts with an empty frontier; \<^verbatim>\<open>next_weight\<close> leaves the
  frontier as it is; and \<^verbatim>\<open>add_solution\<close> returns the index set of the
  frontier entries it removed, which may include the entry just added: the frontier
  afterwards is the old one with the new value vector appended and the returned
  positions popped, highest first.
\<close>

definition frontier_contract :: "('fs, 'e) collab \<Rightarrow> bool" where
  "frontier_contract K \<longleftrightarrow>
     (\<forall>n. ccs K (LinearSupport_init K n) = []) \<and>
     (\<forall>fs algo g rep e. ccs K (fst (snd (next_weight K fs algo g rep e))) = ccs K fs) \<and>
     (\<forall>fs v w. pop_each (ccs K fs @ [v]) (sorted_reverse (fst (add_solution K fs v w)))
                  = (None, ccs K (snd (add_solution K fs v w))))"

text \<open>
  Modelled from the spec: \<^verbatim>\<open>MOQLearning.train\<close> is not part of this file.
  Called with \<^verbatim>\<open>reset_num_timesteps=False\<close> it continues the step counter,
  advancing it by the number of time steps asked for, and a policy's weight vector is
  fixed for its lifetime.
\<close>

definition subpolicy_contract :: "('fs, 'e) collab \<Rightarrow> bool" where
  "subpolicy_contract K \<longleftrightarrow>
     (\<forall>p n h e. agent_global_step (fst (agent_train K p n h e)) = agent_global_step p + n
                \<and> weights (fst (agent_train K p n h e)) = weights p)"

text \<open>
  Modelled from the spec: \<^verbatim>\<open>random_weights\<close> is not part of this file. It
  draws a weight vector, a sequence of \<open>dim\<close> non-negative reals.
\<close>

definition random_weights_contract :: "('fs, 'e) collab \<Rightarrow> bool" where
  "random_weights_contract K \<longleftrightarrow>
     (\<forall>n e. length (fst (random_weights K n e)) = n
            \<and> list_all (\<lambda>x. 0 \<le> x) (fst (random_weights K n e)))"

text \<open>
  Index alignment: the pool and the frontier have the same length, and each pool entry
  was evaluated to the frontier vector at its position.
\<close>

definition aligned :: "('fs, 'e) collab \<Rightarrow> ('fs, 'e) MPMOQLearning \<Rightarrow> bool" where
  "aligned K s \<longleftrightarrow>
     length (policies s) = length (ccs K (linear_support s)) \<and>
     list_all (\<lambda>pv. pv \<in> set (eval_log s)) (zip (policies s) (ccs K (linear_support s)))"

text \<open>Every object of every pool member's table has been allocated.\<close>

definition tables_allocated :: "('fs, 'e) MPMOQLearning \<Rightarrow> bool" where
  "tables_allocated s \<longleftrightarrow>
     list_all (\<lambda>p. \<forall>x \<in> table_objects (mem s) (q_table p). x < fresh (mem s)) (policies s)"

subsection \<open>A small instance\<close>

text \<open>
  Collaborators to run the coordinator on: a frontier service that keeps the list of
  value vectors and prunes by componentwise dominance, sub-policies with two actions
  whose scalarized Q-values are inner products with the weight vector, training that
  writes one table entry, and an outside world that is a counter.
\<close>

definition demo_add_solution :: "vec list \<Rightarrow> vec \<Rightarrow> vec \<Rightarrow> int list \<times> vec list" where
  "demo_add_solution fs v w =
     (if list_ex (\<lambda>u. list_all2 (\<le>) v u) fs then ([int (length fs)], fs)
      else (map int (rev (filter (\<lambda>i. list_all2 (\<le>) (fs ! i) v) [0..<length fs])),
            filter (\<lambda>u. \<not> list_all2 (\<le>) u v) fs @ [v]))"

text \<open>
  The exact inner product. On the small integers and halves of this instance float64
  computes it without rounding.
\<close>

definition inner_product :: "vec \<Rightarrow> vec \<Rightarrow> real" where
  "inner_product a b = sum_list (map2 (*) a b)"

definition demo_scalarized_q_values :: "MOQLearning \<Rightarrow> heap \<Rightarrow> obs \<Rightarrow> vec \<Rightarrow> error + vec" where
  "demo_scalarized_q_values p h ob w =
     (case map_of (dicts h (q_table p)) ob of
        None \<Rightarrow>
          list_comp (\<lambda>q. np_dot inner_product w q)
            (replicate 2 (replicate (length (weights p)) 0))
      | Some a \<Rightarrow> list_comp (\<lambda>q. np_dot inner_product w q) (arrays h a))"

definition demo_agent_eval :: "MOQLearning \<Rightarrow> heap \<Rightarrow> obs \<Rightarrow> vec \<Rightarrow> error + nat" where
  "demo_agent_eval p h ob w =
     (case demo_scalarized_q_values p h ob w of Inl x \<Rightarrow> Inl x | Inr qs \<Rightarrow> np_argmax qs)"

definition demo_agent_train ::
  "MOQLearning \<Rightarrow> nat \<Rightarrow> heap \<Rightarrow> nat \<Rightarrow> MOQLearning \<times> heap \<times> nat" where
  "demo_agent_train p n h e =
     (p\<lparr>agent_global_step := agent_global_step p + n\<rparr>,
      h\<lparr>dicts := (dicts h)(q_table p := ([0], fresh h) # dicts h (q_table p)),
        arrays := (arrays h)(fresh h := [weights p, map (\<lambda>x. 1 - x) (weights p)]),
        fresh := Suc (fresh h)\<rparr>,
      e + n)"

definition demo_policy_evaluation_mo ::
  "(obs \<Rightarrow> vec \<Rightarrow> error + nat) \<Rightarrow> vec \<Rightarrow> nat \<Rightarrow> nat \<Rightarrow> error + vec \<times> nat" where
  "demo_policy_evaluation_mo agent w rep e =
     (case agent [0] w of
        Inl x \<Rightarrow> Inl x
      | Inr act \<Rightarrow> Inr (map (\<lambda>x. x * real (Suc e)) w, e))"

definition demo_collab :: "(vec list, nat) collab" where
  "demo_collab =
     \<lparr>LinearSupport_init = (\<lambda>n. []),
      ccs = (\<lambda>fs. fs),
      next_weight = (\<lambda>fs algo g rep e. ([1, 0], fs, Suc e)),
      add_solution = demo_add_solution,
      random_weights = (\<lambda>n e. (map (\<lambda>i. if i = e mod n then 1 else 0) [0..<n], Suc e)),
      equally_spaced_weights = (\<lambda>n k. [replicate n 1]),
      scalarized_q_values = demo_scalarized_q_values,
      agent_eval = demo_agent_eval,
      agent_train = demo_agent_train,
      policy_evaluation_mo = demo_policy_evaluation_mo,
      log_all_multi_policy_metrics = (\<lambda>front step e. e),
      setup_wandb = (\<lambda>e. e),
      close_wandb = (\<lambda>e. e),
      dot_value = inner_product\<rparr>"

text \<open>A sub-policy whose scalarization never looks at the length of the weight vector.\<close>

definition lenient_collab :: "(vec list, nat) collab" where
  "lenient_collab =
     demo_collab\<lparr>scalarized_q_values :=
       (\<lambda>p h ob w. Inr [sum_list w, 2 * sum_list w + 1])\<rparr>"

definition demo_heap :: heap where
  "demo_heap = \<lparr>dicts = (\<lambda>a. []), arrays = (\<lambda>a. []), fresh = 0\<rparr>"

definition demo_args :: train_args where
  "demo_args = \<lparr>num_iterations = 3, timesteps_per_iteration = 10,
                eval_weights_number_for_front = 1, num_episodes_eval = 1\<rparr>"

definition demo_agent :: "nat \<Rightarrow> vec \<Rightarrow> MOQLearning" where
  "demo_agent i w = \<lparr>agent_id = i, weights = w, q_table = i, agent_global_step = 0\<rparr>"

text \<open>A coordinator holding three trained sub-policies and their frontier.\<close>

definition demo_pool :: "bool \<Rightarrow> (vec list, nat) MPMOQLearning" where
  "demo_pool use_gpi =
     \<lparr>reward_dim = 2, use_gpi_policy = use_gpi, transfer_q_table = True,
      weight_selection_algo = ''random'', log_on = False,
      policies = [demo_agent 0 [1, 0], demo_agent 1 [0, 1], demo_agent 2 [1/2, 1/2]],
      linear_support = [[4, 0], [0, 3], [2, 2]],
      global_step = 30,
      mem = \<lparr>dicts = (\<lambda>a. if a < 3 then [([0], a + 3)] else []),
             arrays = (\<lambda>a. if a = 3 then [[1, 0], [4, 0]]
                            else if a = 4 then [[0, 4], [0, 3]]
                            else if a = 5 then [[2, 2], [1, 2]] else []),
             fresh = 6\<rparr>,
      world = 0,
      eval_log = [(demo_agent 0 [1, 0], [4, 0]), (demo_agent 1 [0, 1], [0, 3]),
                  (demo_agent 2 [1/2, 1/2], [2, 2])]\<rparr>"

text \<open>A newly constructed coordinator with the random strategy and no logging.\<close>

definition demo_start :: "bool \<Rightarrow> (vec list, nat) MPMOQLearning" where
  "demo_start reuse =
     \<lparr>reward_dim = 2, use_gpi_policy = False, transfer_q_table = reuse,
      weight_selection_algo = ''random'', log_on = False, policies = [],
      linear_support = [], global_step = 0, mem = demo_heap, world = 0, eval_log = []\<rparr>"

section \<open>Properties\<close>

subsection \<open>Popping a list of positions\<close>

lemma nths_cong_below:
  "(\<And>k. k < length xs \<Longrightarrow> (k \<in> A) = (k \<in> B)) \<Longrightarrow> nths xs A = nths xs B"
  unfolding nths_def
  by (rule arg_cong[where f="map fst"], rule filter_cong) (auto simp: in_set_zip)

lemma subseq_pop: "subseq (take n xs @ drop (Suc n) xs) xs"
proof -
  have tl: "subseq (tl ys) ys" for ys :: "'a list"
    by (cases ys) auto
  have "drop (Suc n) xs = tl (drop n xs)"
    by (simp add: drop_Suc tl_drop)
  then have "subseq (drop (Suc n) xs) (drop n xs)"
    using tl[of "drop n xs"] by simp
  then have "subseq (take n xs @ drop (Suc n) xs) (take n xs @ drop n xs)"
    by (simp only: subseq_append')
  then show ?thesis by simp
qed

lemma list_pop_in_range:
  "0 \<le> i \<Longrightarrow> i < int (length xs) \<Longrightarrow>
     list_pop xs i = Inr (xs ! nat i, take (nat i) xs @ drop (Suc (nat i)) xs)"
  by (simp add: list_pop_def Let_def)

lemma nths_pop_step:
  assumes n: "n < length xs" and below: "\<forall>d\<in>D. d < int n"
  shows "nths (take n xs @ drop (Suc n) xs) {k. int k \<notin> D}
           = nths xs {k. int k \<notin> insert (int n) D}"
proof -
  have xs: "xs = take n xs @ (xs ! n # drop (Suc n) xs)"
    using n by (simp add: id_take_nth_drop)
  have l: "nths (take n xs) {k. int k \<notin> D} = nths (take n xs) {k. int k \<notin> insert (int n) D}"
    by (rule nths_cong_below) auto
  have r1: "nths (drop (Suc n) xs) {j. int (j + n) \<notin> D} = drop (Suc n) xs"
    using below by (intro nths_all) auto
  have r2: "nths (drop (Suc n) xs) {j. int (Suc j + n) \<notin> insert (int n) D} = drop (Suc n) xs"
    using below by (intro nths_all) auto
  have len: "length (take n xs) = n" using n by simp
  have "nths (take n xs @ (xs ! n # drop (Suc n) xs)) {k. int k \<notin> insert (int n) D}
          = nths (take n xs) {k. int k \<notin> insert (int n) D} @ drop (Suc n) xs"
    unfolding nths_append nths_Cons len mem_Collect_eq using r2 by simp
  moreover have "nths (take n xs @ drop (Suc n) xs) {k. int k \<notin> D}
          = nths (take n xs) {k. int k \<notin> D} @ drop (Suc n) xs"
    unfolding nths_append len mem_Collect_eq using r1 by simp
  ultimately show ?thesis using xs l by metis
qed

lemma pop_each_descending:
  "sorted_wrt (>) ds \<Longrightarrow> \<forall>d\<in>set ds. 0 \<le> d \<and> d < int (length xs) \<Longrightarrow>
     pop_each xs ds = (None, nths xs {k. int k \<notin> set ds})"
proof (induction ds arbitrary: xs)
  case Nil
  then show ?case by (simp add: nths_all)
next
  case (Cons d ds)
  let ?n = "nat d"
  let ?xs' = "take ?n xs @ drop (Suc ?n) xs"
  from Cons.prems have d: "0 \<le> d" "d < int (length xs)" by auto
  then have n: "?n < length xs" by auto
  have below: "\<forall>e\<in>set ds. e < int ?n" using Cons.prems d by auto
  have len: "length ?xs' = length xs - 1" using n by auto
  have rng: "\<forall>e\<in>set ds. 0 \<le> e \<and> e < int (length ?xs')"
    using Cons.prems below n len by fastforce
  have "pop_each xs (d # ds) = pop_each ?xs' ds"
    using d by (simp add: list_pop_in_range)
  also have "\<dots> = (None, nths ?xs' {k. int k \<notin> set ds})"
    using Cons.IH[OF _ rng] Cons.prems by simp
  also have "nths ?xs' {k. int k \<notin> set ds} = nths xs {k. int k \<notin> insert (int ?n) (set ds)}"
    by (rule nths_pop_step[OF n below])
  finally show ?case using d by simp
qed

lemma sorted_reverse_descending: "distinct idx \<Longrightarrow> sorted_wrt (>) (sorted_reverse idx)"
  by (simp add: sorted_reverse_def sorted_wrt_rev strict_sorted_iff)

lemma set_sorted_reverse: "set (sorted_reverse idx) = set idx"
  by (simp add: sorted_reverse_def)

lemma pop_each_sorted_reverse:
  assumes "distinct idx" and "\<forall>i\<in>set idx. 0 \<le> i \<and> i < int (length xs)"
  shows "pop_each xs (sorted_reverse idx) = (None, nths xs {k. int k \<notin> set idx})"
  using pop_each_descending[OF sorted_reverse_descending[OF assms(1)], of xs] assms(2)
  by (simp add: set_sorted_reverse)

lemma list_pop_subseq: "list_pop xs i = Inr (x, xs') \<Longrightarrow> subseq xs' xs"
  by (auto simp: list_pop_def Let_def subseq_pop split: if_splits)

lemma list_pop_length: "list_pop xs i = Inr (x, xs') \<Longrightarrow> Suc (length xs') = length xs"
  by (auto simp: list_pop_def Let_def split: if_splits)

lemma pop_each_subseq: "pop_each xs ds = (r, xs') \<Longrightarrow> subseq xs' xs"
proof (induction ds arbitrary: xs)
  case Nil
  then show ?case by simp
next
  case (Cons d ds)
  show ?case
  proof (cases "list_pop xs d")
    case (Inl e)
    with Cons.prems show ?thesis by simp
  next
    case (Inr p)
    obtain x xs1 where p: "p = (x, xs1)" by (cases p)
    from Cons.prems Inr p have "pop_each xs1 ds = (r, xs')" by simp
    then have "subseq xs' xs1" by (rule Cons.IH)
    moreover have "subseq xs1 xs" using Inr p by (auto dest: list_pop_subseq)
    ultimately show ?thesis by (rule subseq_order.order_trans)
  qed
qed

lemma pop_each_length: "pop_each xs ds = (None, xs') \<Longrightarrow> length xs' + length ds = length xs"
proof (induction ds arbitrary: xs)
  case Nil
  then show ?case by simp
next
  case (Cons d ds)
  show ?case
  proof (cases "list_pop xs d")
    case (Inl e)
    with Cons.prems show ?thesis by simp
  next
    case (Inr p)
    obtain x xs1 where p: "p = (x, xs1)" by (cases p)
    from Cons.prems Inr p have "pop_each xs1 ds = (None, xs')" by simp
    then have "length xs' + length ds = length xs1" by (rule Cons.IH)
    moreover have "Suc (length xs1) = length xs" using Inr p by (auto dest: list_pop_length)
    ultimately show ?thesis by simp
  qed
qed

subsection \<open>Removing policies\<close>

text \<open>
  C3. For a list of distinct positions of the pool, \<open>delete_policies\<close> raises nothing
  and leaves exactly the entries at the other positions, in their order
  (\<^const>\<open>nths\<close> keeps the entries whose position is in the given set). The result
  depends on the set of positions only, not on the order in which they are listed; and
  removing position 1 from the pool \<open>[A, B, C]\<close> leaves \<open>[A, C]\<close>.
\<close>

theorem delete_policies_removes_exactly:
  assumes "distinct idx" and "\<forall>i\<in>set idx. 0 \<le> i \<and> i < int (length (policies s))"
  shows "delete_policies s idx
           = (None, s\<lparr>policies := nths (policies s) {k. int k \<notin> set idx}\<rparr>)
         \<and> (\<forall>idx'. distinct idx' \<and> set idx' = set idx
               \<longrightarrow> delete_policies s idx' = delete_policies s idx)
         \<and> delete_policies (s\<lparr>policies := [A, B, C]\<rparr>) [1]
             = (None, s\<lparr>policies := [A, C]\<rparr>)"
proof (intro conjI allI impI)
  show one: "delete_policies s idx
           = (None, s\<lparr>policies := nths (policies s) {k. int k \<notin> set idx}\<rparr>)"
    using pop_each_sorted_reverse[OF assms] by (simp add: delete_policies_def)
  fix idx' assume h: "distinct idx' \<and> set idx' = set idx"
  then have "\<forall>i\<in>set idx'. 0 \<le> i \<and> i < int (length (policies s))" using assms(2) by simp
  with h have "pop_each (policies s) (sorted_reverse idx')
                 = (None, nths (policies s) {k. int k \<notin> set idx'})"
    by (intro pop_each_sorted_reverse) auto
  with h one show "delete_policies s idx' = delete_policies s idx"
    by (simp add: delete_policies_def)
next
  show "delete_policies (s\<lparr>policies := [A, B, C]\<rparr>) [1] = (None, s\<lparr>policies := [A, C]\<rparr>)"
    by (simp add: delete_policies_def sorted_reverse_def list_pop_def)
qed

text \<open>
  C10. \<open>delete_policies\<close> changes the pool only: for every index list, whether or not
  an exception is raised, the pool afterwards is a subsequence of the pool before (the
  survivors are the entries that were there, in their order), every other field of the
  coordinator, the frontier and the heap of value tables among them, is as before. So
  a call that removes at least one entry from an index-aligned coordinator leaves the
  pool shorter than the frontier.
\<close>

theorem delete_policies_frame:
  assumes "delete_policies s idx = (r, s')"
  shows "subseq (policies s') (policies s)
         \<and> s' = s\<lparr>policies := policies s'\<rparr>
         \<and> ccs K (linear_support s') = ccs K (linear_support s)
         \<and> mem s' = mem s
         \<and> (r = None \<and> idx \<noteq> [] \<and> length (policies s) = length (ccs K (linear_support s))
              \<longrightarrow> length (policies s') < length (ccs K (linear_support s')))"
proof -
  obtain r0 ps where p: "pop_each (policies s) (sorted_reverse idx) = (r0, ps)"
    by (cases "pop_each (policies s) (sorted_reverse idx)")
  with assms have s': "s' = s\<lparr>policies := ps\<rparr>" and r: "r = r0"
    by (simp_all add: delete_policies_def)
  have sub: "subseq ps (policies s)" using p by (rule pop_each_subseq)
  have len: "r = None \<Longrightarrow> length ps + length idx = length (policies s)"
    using p r pop_each_length[of "policies s" "sorted_reverse idx" ps]
    by (simp add: sorted_reverse_def)
  have "r = None \<Longrightarrow> idx \<noteq> [] \<Longrightarrow> length ps < length (policies s)"
    using len by (cases idx) auto
  with sub s' show ?thesis by auto
qed


theorem delete_policies_removes_exactly_witness:
  "delete_policies (demo_pool False) [2, 0]
     = (None, (demo_pool False)\<lparr>policies := [demo_agent 1 [0, 1]]\<rparr>)
   \<and> delete_policies (demo_pool False) [0, 2] = delete_policies (demo_pool False) [2, 0]"
proof -
  have d: "distinct [2, 0 :: int]" by simp
  have r: "\<forall>i\<in>set [2, 0 :: int]. 0 \<le> i \<and> i < int (length (policies (demo_pool False)))"
    by (simp add: demo_pool_def)
  have n: "nths (policies (demo_pool False)) {k. int k \<notin> set [2, 0]} = [demo_agent 1 [0, 1]]"
    by (simp add: demo_pool_def nths_Cons)
  note t = delete_policies_removes_exactly[OF d r, of "demo_agent 0 [1, 0]" "demo_agent 1 [0, 1]" "demo_agent 2 [1/2, 1/2]"]
  from t n have a: "delete_policies (demo_pool False) [2, 0]
     = (None, (demo_pool False)\<lparr>policies := [demo_agent 1 [0, 1]]\<rparr>)"
    by simp
  from t have "distinct [0, 2 :: int] \<and> set [0, 2 :: int] = set [2, 0]
      \<longrightarrow> delete_policies (demo_pool False) [0, 2] = delete_policies (demo_pool False) [2, 0]"
    by blast
  then have b: "delete_policies (demo_pool False) [0, 2] = delete_policies (demo_pool False) [2, 0]"
    by (simp add: insert_commute)
  from a b show ?thesis by simp
qed

theorem delete_policies_frame_witness:
  "subseq [demo_agent 0 [1, 0], demo_agent 2 [1/2, 1/2]] (policies (demo_pool False))
   \<and> ccs demo_collab (linear_support ((demo_pool False)\<lparr>policies := [demo_agent 0 [1, 0], demo_agent 2 [1/2, 1/2]]\<rparr>))
        = [[4, 0], [0, 3], [2, 2]]
   \<and> length [demo_agent 0 [1, 0], demo_agent 2 [1/2, 1/2]] < length [[4, 0], [0, 3], [2, 2 :: real]]"
proof -
  have run: "delete_policies (demo_pool False) [1]
      = (None, (demo_pool False)\<lparr>policies := [demo_agent 0 [1, 0], demo_agent 2 [1/2, 1/2]]\<rparr>)"
    by (simp add: delete_policies_def sorted_reverse_def list_pop_def demo_pool_def)
  from delete_policies_frame[OF run, of demo_collab] show ?thesis
    by (simp add: demo_pool_def demo_collab_def)
qed

subsection \<open>numpy primitives and list comprehensions\<close>

lemma first_max_iff:
  "first_max xs i \<longleftrightarrow>
     i < length xs \<and> (\<forall>j<length xs. xs ! j \<le> xs ! i) \<and> (\<forall>j<i. xs ! j < xs ! i)"
  by (auto simp: first_max_def list_all_length)

lemma argmax_scan_first_max:
  "first_max pre bi \<Longrightarrow> best = pre ! bi \<Longrightarrow>
     first_max (pre @ xs) (argmax_scan xs (length pre) best bi)"
proof (induction xs arbitrary: pre best bi)
  case Nil
  then show ?case by simp
next
  case (Cons x xs)
  from Cons.prems have fm: "bi < length pre" "\<forall>j<length pre. pre ! j \<le> pre ! bi"
    "\<forall>j<bi. pre ! j < pre ! bi"
    by (simp_all add: first_max_iff)
  show ?case
  proof (cases "best < x")
    case True
    have "first_max (pre @ [x]) (length pre)"
      unfolding first_max_iff
    proof (intro conjI allI impI)
      show "length pre < length (pre @ [x])" by simp
      fix j assume "j < length (pre @ [x])"
      then show "(pre @ [x]) ! j \<le> (pre @ [x]) ! length pre"
        using fm True Cons.prems(2) by (cases "j < length pre") (auto simp: nth_append intro: less_imp_le order_trans)
    next
      fix j assume "j < length pre"
      then show "(pre @ [x]) ! j < (pre @ [x]) ! length pre"
        using fm True Cons.prems(2) by (auto simp: nth_append intro: le_less_trans)
    qed
    from Cons.IH[OF this, of x] True show ?thesis by simp
  next
    case False
    have "first_max (pre @ [x]) bi"
      unfolding first_max_iff
    proof (intro conjI allI impI)
      show "bi < length (pre @ [x])" using fm by simp
      fix j assume "j < length (pre @ [x])"
      then show "(pre @ [x]) ! j \<le> (pre @ [x]) ! bi"
        using fm False Cons.prems(2) by (cases "j < length pre") (auto simp: nth_append)
    next
      fix j assume "j < bi"
      then show "(pre @ [x]) ! j < (pre @ [x]) ! bi"
        using fm by (auto simp: nth_append)
    qed
    from Cons.IH[OF this, of best] False Cons.prems(2) fm show ?thesis by (simp add: nth_append)
  qed
qed

lemma np_argmax_first_max:
  assumes "xs \<noteq> []"
  shows "\<exists>i. np_argmax xs = Inr i \<and> first_max xs i"
proof -
  obtain x rest where xs: "xs = x # rest" using assms by (cases xs) auto
  have "first_max [x] 0" by (simp add: first_max_def)
  from argmax_scan_first_max[OF this, of x rest] show ?thesis
    by (simp add: xs np_argmax_def)
qed

lemma np_argmax_empty: "np_argmax [] = Inl ValueError"
  by (simp add: np_argmax_def)

lemma list_comp_eq_Inr:
  fixes f :: "'a \<Rightarrow> error + 'b"
  shows "list_comp f xs = Inr ys \<longleftrightarrow> map f xs = map Inr ys"
proof (induction xs arbitrary: ys)
  case Nil
  show ?case by (cases ys) simp_all
next
  case (Cons x xs)
  show ?case
  proof (cases "f x")
    case (Inl e)
    then show ?thesis by (cases ys) simp_all
  next
    case (Inr y)
    show ?thesis
    proof (cases "list_comp f xs")
      case (Inl e)
      have no: "map f xs \<noteq> map Inr zs" for zs
        using Cons.IH[of zs] Inl by simp
      show ?thesis
      proof (cases ys)
        case Nil
        with Inl Inr show ?thesis by simp
      next
        case (Cons y' ys')
        with Inl Inr no[of ys'] show ?thesis by simp
      qed
    next
      case r: (Inr zs)
      have m: "map f xs = map Inr zs" using Cons.IH[of zs] r by simp
      show ?thesis
      proof (cases ys)
        case Nil
        with r Inr show ?thesis by simp
      next
        case (Cons y' ys')
        have "(map Inr zs = (map Inr ys' :: (error + 'b) list)) = (zs = ys')"
          by (rule inj_map_eq_map) simp
        with Cons r Inr m show ?thesis by simp
      qed
    qed
  qed
qed

lemma list_comp_cong:
  "(\<And>x. x \<in> set xs \<Longrightarrow> f x = g x) \<Longrightarrow> list_comp f xs = list_comp g xs"
  by (induction xs) (auto split: sum.splits)

lemma list_comp_first_error:
  "(\<forall>q\<in>set ps1. \<exists>r. f q = Inr r) \<Longrightarrow> f p = Inl e \<Longrightarrow> list_comp f (ps1 @ p # ps2) = Inl e"
  by (induction ps1) (auto split: sum.splits)

lemma list_comp_total:
  "(\<forall>x\<in>set xs. \<exists>y. f x = Inr y) \<Longrightarrow> \<exists>ys. list_comp f xs = Inr ys"
  by (induction xs) (auto split: sum.splits)

lemma list_comp_np_dot_error: "list_comp (\<lambda>v. np_dot f w v) vs = Inl e \<Longrightarrow> e = ValueError"
  by (induction vs arbitrary: e) (auto simp: np_dot_def split: sum.splits if_splits)

lemma np_dot_Inr: "np_dot f w v = Inr x \<Longrightarrow> length w = length v"
  by (simp add: np_dot_def split: if_splits)

lemma list_comp_np_dot_mismatch:
  assumes "\<exists>v\<in>set vs. length v \<noteq> length w"
  shows "list_comp (\<lambda>v. np_dot f w v) vs = Inl ValueError"
proof (cases "list_comp (\<lambda>v. np_dot f w v) vs")
  case (Inl e)
  then show ?thesis by (simp add: list_comp_np_dot_error)
next
  case (Inr ds)
  then have m: "map (\<lambda>v. np_dot f w v) vs = map Inr ds" by (simp add: list_comp_eq_Inr)
  from assms obtain v where v: "v \<in> set vs" "length v \<noteq> length w" by auto
  then obtain i where i: "i < length vs" "vs ! i = v" by (auto simp: in_set_conv_nth)
  have "length ds = length vs" using m by (metis length_map)
  with i m have "np_dot f w v = Inr (ds ! i)"
    by (metis nth_map)
  with v show ?thesis by (auto dest: np_dot_Inr)
qed

lemma list_comp_np_dot_total:
  assumes "\<forall>v\<in>set vs. length v = length w"
  shows "list_comp (\<lambda>v. np_dot f w v) vs = Inr (map (\<lambda>v. f w v) vs)"
  using assms by (induction vs) (simp_all add: np_dot_def)

lemma concat_uniform:
  "\<forall>r\<in>set rows. length r = m \<Longrightarrow> length (concat rows) = length rows * m"
  by (induction rows) auto

lemma concat_nth_uniform:
  "\<forall>r\<in>set rows. length r = m \<Longrightarrow> p < length rows \<Longrightarrow> a < m \<Longrightarrow>
     concat rows ! (p * m + a) = rows ! p ! a"
proof (induction rows arbitrary: p)
  case Nil
  then show ?case by simp
next
  case (Cons r rows)
  show ?case
  proof (cases p)
    case 0
    with Cons.prems show ?thesis by (simp add: nth_append)
  next
    case (Suc q)
    with Cons.prems have "concat rows ! (q * m + a) = rows ! q ! a"
      by (intro Cons.IH) auto
    with Suc Cons.prems show ?thesis by (simp add: nth_append)
  qed
qed

lemma np_stack_uniform:
  assumes "rows \<noteq> []" and "\<forall>r\<in>set rows. length r = m"
  shows "np_stack rows = Inr ((length rows, m), rows)"
proof -
  obtain r rs where rows: "rows = r # rs" using assms(1) by (cases rows) auto
  with assms(2) show ?thesis by (simp add: np_stack_def list_all_iff)
qed

lemma row_major_order:
  fixes p a p' a' m :: nat
  assumes "a < m" "a' < m" "p * m + a \<le> p' * m + a'"
  shows "p < p' \<or> (p = p' \<and> a \<le> a')"
proof (cases "p' < p")
  case True
  then have "Suc p' \<le> p" by simp
  then have "Suc p' * m \<le> p * m" by (rule mult_le_mono1)
  with assms show ?thesis by simp
next
  case False
  with assms show ?thesis by (cases "p = p'") auto
qed

subsection \<open>The GPI action selector\<close>

text \<open>
  C1. For a non-empty pool whose policies each return scalarized Q-values for the same
  \<open>m > 0\<close> actions, \<open>gpi_action\<close> returns an action \<open>a\<close> for which some policy
  \<open>p\<close> attains the greatest scalarized Q-value over all policies and actions, that
  is \<open>argmax\<^sub>a max\<^sub>p Q p a\<close>; and \<open>(p, a)\<close> is the first pair attaining it in
  row-major order: any other pair with the same value has a later policy, or the same
  policy and a later action.
\<close>

theorem gpi_action_argmax:
  assumes pool: "policies s \<noteq> []" and m: "0 < m"
    and rows: "\<forall>p\<in>set (policies s).
                 \<exists>row. scalarized_q_values K p (mem s) state w = Inr row \<and> length row = m"
  shows "\<exists>rows p a.
           map (\<lambda>policy. scalarized_q_values K policy (mem s) state w) (policies s) = map Inr rows
           \<and> gpi_action K s state w = Inr a
           \<and> p < length rows \<and> a < m
           \<and> (\<forall>p'<length rows. \<forall>a'<m. rows ! p' ! a' \<le> rows ! p ! a)
           \<and> (\<forall>p'<length rows. \<forall>a'<m.
                 rows ! p' ! a' = rows ! p ! a \<longrightarrow> p < p' \<or> (p = p' \<and> a \<le> a'))"
proof -
  let ?f = "\<lambda>policy. scalarized_q_values K policy (mem s) state w"
  from rows have "\<forall>p\<in>set (policies s). \<exists>row. ?f p = Inr row" by blast
  then obtain rs where lc: "list_comp ?f (policies s) = Inr rs"
    using list_comp_total[of "policies s" ?f] by blast
  then have mp: "map ?f (policies s) = map Inr rs" by (simp add: list_comp_eq_Inr)
  then have len: "length rs = length (policies s)" by (metis length_map)
  have uni: "\<forall>r\<in>set rs. length r = m"
  proof
    fix r assume "r \<in> set rs"
    then obtain i where i: "i < length rs" "rs ! i = r" by (auto simp: in_set_conv_nth)
    with mp len have "?f (policies s ! i) = Inr r" by (metis nth_map)
    moreover have "policies s ! i \<in> set (policies s)" using i len by simp
    ultimately show "length r = m" using rows by fastforce
  qed
  have ne: "rs \<noteq> []" using pool len by auto
  have st: "np_stack rs = Inr ((length rs, m), rs)" using ne uni by (rule np_stack_uniform)
  have clen: "length (concat rs) = length rs * m" using uni by (rule concat_uniform)
  have "concat rs \<noteq> []" using clen ne m by (metis length_0_conv length_greater_0_conv mult_is_0 less_numeral_extra(3))
  then obtain i where am: "np_argmax (concat rs) = Inr i" and fm: "first_max (concat rs) i"
    using np_argmax_first_max by blast
  from fm have i: "i < length rs * m" and
    ge: "\<forall>j<length rs * m. concat rs ! j \<le> concat rs ! i" and
    gt: "\<forall>j<i. concat rs ! j < concat rs ! i"
    by (simp_all add: first_max_iff clen)
  let ?p = "i div m" and ?a = "i mod m"
  have p: "?p < length rs" using i m by (simp add: less_mult_imp_div_less)
  have a: "?a < m" using m by simp
  have idx: "?p * m + ?a = i" by simp
  have at: "concat rs ! i = rs ! ?p ! ?a"
    using concat_nth_uniform[OF uni p a] idx by simp
  have act: "gpi_action K s state w = Inr ?a"
    using lc st am i by (simp add: gpi_action_def np_unravel_index_def)
  have in_range: "p' * m + a' < length rs * m" if "p' < length rs" "a' < m" for p' a'
  proof -
    from that have "Suc p' * m \<le> length rs * m" by (intro mult_le_mono1) simp
    with that show ?thesis by simp
  qed
  have max: "\<forall>p'<length rs. \<forall>a'<m. rs ! p' ! a' \<le> rs ! ?p ! ?a"
  proof (intro allI impI)
    fix p' a' assume h: "p' < length rs" "a' < m"
    from ge in_range[OF h] have "concat rs ! (p' * m + a') \<le> concat rs ! i" by simp
    then show "rs ! p' ! a' \<le> rs ! ?p ! ?a"
      using concat_nth_uniform[OF uni h] at by simp
  qed
  have first: "\<forall>p'<length rs. \<forall>a'<m.
      rs ! p' ! a' = rs ! ?p ! ?a \<longrightarrow> ?p < p' \<or> (?p = p' \<and> ?a \<le> a')"
  proof (intro allI impI)
    fix p' a' assume h: "p' < length rs" "a' < m" and eq: "rs ! p' ! a' = rs ! ?p ! ?a"
    have "concat rs ! (p' * m + a') = concat rs ! i"
      using concat_nth_uniform[OF uni h] at eq by simp
    with gt have "\<not> p' * m + a' < i" by force
    then have "?p * m + ?a \<le> p' * m + a'" using idx by simp
    with a h(2) show "?p < p' \<or> (?p = p' \<and> ?a \<le> a')" by (intro row_major_order)
  qed
  from mp act p a max first show ?thesis by blast
qed

theorem gpi_action_argmax_witness:
  "gpi_action demo_collab (demo_pool True) [0] [1/2, 1/2] = Inr 1
   \<and> (\<exists>rows p a.
        map (\<lambda>policy. scalarized_q_values demo_collab policy (mem (demo_pool True)) [0] [1/2, 1/2])
          (policies (demo_pool True)) = map Inr rows
        \<and> gpi_action demo_collab (demo_pool True) [0] [1/2, 1/2] = Inr a
        \<and> p < length rows \<and> a < 2
        \<and> (\<forall>p'<length rows. \<forall>a'<2. rows ! p' ! a' \<le> rows ! p ! a)
        \<and> (\<forall>p'<length rows. \<forall>a'<2.
              rows ! p' ! a' = rows ! p ! a \<longrightarrow> p < p' \<or> (p = p' \<and> a \<le> a')))"
proof -
  have pool: "policies (demo_pool True) \<noteq> []" by (simp add: demo_pool_def)
  have rows: "\<forall>p\<in>set (policies (demo_pool True)).
      \<exists>row. scalarized_q_values demo_collab p (mem (demo_pool True)) [0] [1/2, 1/2] = Inr row
            \<and> length row = 2"
    by (simp add: demo_pool_def demo_collab_def demo_scalarized_q_values_def demo_agent_def
        np_dot_def inner_product_def)
  have run: "gpi_action demo_collab (demo_pool True) [0] [1/2, 1/2] = Inr 1"
    by (simp add: gpi_action_def demo_pool_def demo_collab_def demo_scalarized_q_values_def
        demo_agent_def np_dot_def inner_product_def np_stack_def np_argmax_def
        np_unravel_index_def)
  from gpi_action_argmax[OF pool _ rows] run show ?thesis by simp
qed

subsection \<open>The evaluation facade\<close>

lemma gpi_action_empty: "policies s = [] \<Longrightarrow> gpi_action K s ob w = Inl ValueError"
  by (simp add: gpi_action_def np_stack_def)

text \<open>
  C4. With an empty pool \<open>eval\<close> never returns an action. In GPI mode, and in
  best-match mode over an empty frontier, the exception is the \<^verbatim>\<open>ValueError\<close>
  that numpy raises on the empty sequence (\<^verbatim>\<open>np.stack\<close>, \<^verbatim>\<open>np.argmax\<close>):
  the invalid-state error of the specification.
\<close>

theorem eval_empty_pool_fails:
  assumes "policies s = []"
  shows "(use_gpi_policy s \<longrightarrow> eval K s ob w = Inl ValueError)
         \<and> (\<not> use_gpi_policy s \<and> ccs K (linear_support s) = []
               \<longrightarrow> eval K s ob w = Inl ValueError)
         \<and> (\<exists>e. eval K s ob w = Inl e)"
proof -
  have gpi: "use_gpi_policy s \<Longrightarrow> eval K s ob w = Inl ValueError"
    using assms by (simp add: eval_def gpi_action_empty)
  have emp: "\<not> use_gpi_policy s \<Longrightarrow> ccs K (linear_support s) = []
      \<Longrightarrow> eval K s ob w = Inl ValueError"
    by (simp add: eval_def np_argmax_empty)
  have "\<exists>e. eval K s ob w = Inl e" if "\<not> use_gpi_policy s"
    using that assms
    by (auto simp: eval_def list_get_def split: sum.splits)
  with gpi emp show ?thesis by blast
qed

theorem eval_empty_pool_fails_witness:
  "eval demo_collab ((demo_pool True)\<lparr>policies := [], linear_support := []\<rparr>) [0] [1/2, 1/2]
     = Inl ValueError
   \<and> eval demo_collab ((demo_pool False)\<lparr>policies := [], linear_support := []\<rparr>) [0] [1/2, 1/2]
     = Inl ValueError"
proof -
  have g: "use_gpi_policy ((demo_pool True)\<lparr>policies := [], linear_support := []\<rparr>)"
    and n: "\<not> use_gpi_policy ((demo_pool False)\<lparr>policies := [], linear_support := []\<rparr>)"
    by (simp_all add: demo_pool_def)
  have c: "ccs demo_collab
      (linear_support ((demo_pool False)\<lparr>policies := [], linear_support := []\<rparr>)) = []"
    by (simp add: demo_collab_def)
  show ?thesis
    using eval_empty_pool_fails[of "(demo_pool True)\<lparr>policies := [], linear_support := []\<rparr>"
        demo_collab "[0]" "[1/2, 1/2]"]
      eval_empty_pool_fails[of "(demo_pool False)\<lparr>policies := [], linear_support := []\<rparr>"
        demo_collab "[0]" "[1/2, 1/2]"] g n c
    by simp
qed

text \<open>
  C8. In best-match mode, with one policy in the pool and one value vector in the
  frontier, \<open>eval\<close> is that policy's own \<open>eval\<close>, for every weight vector of the
  frontier vector's dimension.
\<close>

theorem eval_single_policy_delegates:
  assumes "\<not> use_gpi_policy s" and "policies s = [p]" and "ccs K (linear_support s) = [v]"
    and "length w = length v"
  shows "eval K s ob w = agent_eval K p (mem s) ob w"
  using assms by (simp add: eval_def np_dot_def np_argmax_def list_get_def)

theorem eval_single_policy_delegates_witness:
  "eval demo_collab
     ((demo_pool False)\<lparr>policies := [demo_agent 0 [1, 0]], linear_support := [[4, 0]]\<rparr>)
     [0] [0, 1]
   = agent_eval demo_collab (demo_agent 0 [1, 0]) (mem (demo_pool False)) [0] [0, 1]"
  using eval_single_policy_delegates[of
      "(demo_pool False)\<lparr>policies := [demo_agent 0 [1, 0]], linear_support := [[4, 0]]\<rparr>"
      "demo_agent 0 [1, 0]" demo_collab "[4, 0]" "[0, 1]" "[0]"]
  by (simp add: demo_pool_def demo_collab_def)

text \<open>
  C9, as stated, fails: the coordinator has no dimension check of its own. In GPI mode,
  with sub-policies whose scalarization does not look at the length of the weight
  vector, \<open>eval\<close> returns an action for a one-component weight vector although the
  reward dimension is two.
\<close>

theorem eval_dimension_unchecked_counterexample:
  "length [1 :: real] \<noteq> reward_dim (demo_pool True)
   \<and> eval lenient_collab (demo_pool True) [0] [1] = Inr 1"
  by (simp add: eval_def gpi_action_def demo_pool_def lenient_collab_def demo_collab_def
      np_stack_def np_argmax_def np_unravel_index_def)

text \<open>
  C9, amended. In best-match mode, a weight vector whose length differs from that of a
  frontier value vector makes \<open>eval\<close> raise the \<^verbatim>\<open>ValueError\<close> of
  \<^verbatim>\<open>np.dot\<close>, before any sub-policy is consulted. In GPI mode the weight vector
  goes unchanged to the sub-policies: \<open>eval\<close> depends on it only through their
  scalarized Q-values, and the first exception a sub-policy raises is the exception of
  \<open>eval\<close>.
\<close>

theorem eval_dimension_mismatch:
  "(\<not> use_gpi_policy s \<and> (\<exists>v\<in>set (ccs K (linear_support s)). length v \<noteq> length w)
      \<longrightarrow> eval K s ob w = Inl ValueError)
   \<and> (use_gpi_policy s
        \<and> (\<forall>p\<in>set (policies s).
              scalarized_q_values K p (mem s) ob w = scalarized_q_values K p (mem s) ob w')
      \<longrightarrow> eval K s ob w = eval K s ob w')
   \<and> (use_gpi_policy s \<and> policies s = ps1 @ p # ps2
        \<and> (\<forall>q\<in>set ps1. \<exists>r. scalarized_q_values K q (mem s) ob w = Inr r)
        \<and> scalarized_q_values K p (mem s) ob w = Inl e
      \<longrightarrow> eval K s ob w = Inl e)"
proof (intro conjI impI)
  assume "\<not> use_gpi_policy s \<and> (\<exists>v\<in>set (ccs K (linear_support s)). length v \<noteq> length w)"
  then show "eval K s ob w = Inl ValueError"
    by (simp add: eval_def list_comp_np_dot_mismatch)
next
  assume h: "use_gpi_policy s
        \<and> (\<forall>p\<in>set (policies s).
              scalarized_q_values K p (mem s) ob w = scalarized_q_values K p (mem s) ob w')"
  then have "list_comp (\<lambda>policy. scalarized_q_values K policy (mem s) ob w) (policies s)
      = list_comp (\<lambda>policy. scalarized_q_values K policy (mem s) ob w') (policies s)"
    by (intro list_comp_cong) simp
  with h show "eval K s ob w = eval K s ob w'"
    by (simp add: eval_def gpi_action_def)
next
  assume h: "use_gpi_policy s \<and> policies s = ps1 @ p # ps2
        \<and> (\<forall>q\<in>set ps1. \<exists>r. scalarized_q_values K q (mem s) ob w = Inr r)
        \<and> scalarized_q_values K p (mem s) ob w = Inl e"
  then have "list_comp (\<lambda>policy. scalarized_q_values K policy (mem s) ob w) (ps1 @ p # ps2)
      = Inl e"
    by (intro list_comp_first_error) simp_all
  with h show "eval K s ob w = Inl e"
    by (simp add: eval_def gpi_action_def)
qed

theorem eval_dimension_mismatch_witness:
  "eval demo_collab (demo_pool False) [0] [1] = Inl ValueError
   \<and> eval demo_collab (demo_pool True) [0] [1] = Inl ValueError
   \<and> eval lenient_collab (demo_pool True) [0] [1] = eval lenient_collab (demo_pool True) [0] [1/2, 1/2]"
proof -
  have a: "\<not> use_gpi_policy (demo_pool False)
      \<and> (\<exists>v\<in>set (ccs demo_collab (linear_support (demo_pool False))). length v \<noteq> length [1::real])"
    by (simp add: demo_pool_def demo_collab_def)
  have b: "use_gpi_policy (demo_pool True)
      \<and> policies (demo_pool True) = [] @ demo_agent 0 [1, 0] # [demo_agent 1 [0, 1], demo_agent 2 [1/2, 1/2]]
      \<and> (\<forall>q\<in>set []. \<exists>r. scalarized_q_values demo_collab q (mem (demo_pool True)) [0] [1] = Inr r)
      \<and> scalarized_q_values demo_collab (demo_agent 0 [1, 0]) (mem (demo_pool True)) [0] [1]
           = Inl ValueError"
    by (simp add: demo_pool_def demo_collab_def demo_scalarized_q_values_def demo_agent_def
        np_dot_def inner_product_def)
  have c: "use_gpi_policy (demo_pool True)
      \<and> (\<forall>p\<in>set (policies (demo_pool True)).
            scalarized_q_values lenient_collab p (mem (demo_pool True)) [0] [1]
              = scalarized_q_values lenient_collab p (mem (demo_pool True)) [0] [1/2, 1/2])"
    by (simp add: demo_pool_def lenient_collab_def)
  from eval_dimension_mismatch[of "demo_pool False" demo_collab "[1]" "[0]"] a
  have 1: "eval demo_collab (demo_pool False) [0] [1] = Inl ValueError" by blast
  from eval_dimension_mismatch[of "demo_pool True" demo_collab "[1]" "[0]" _ "[]"
      "demo_agent 0 [1, 0]" "[demo_agent 1 [0, 1], demo_agent 2 [1/2, 1/2]]" ValueError] b
  have 2: "eval demo_collab (demo_pool True) [0] [1] = Inl ValueError" by blast
  from eval_dimension_mismatch[of "demo_pool True" lenient_collab "[1]" "[0]" "[1/2, 1/2]"] c
  have 3: "eval lenient_collab (demo_pool True) [0] [1]
      = eval lenient_collab (demo_pool True) [0] [1/2, 1/2]" by blast
  from 1 2 3 show ?thesis by simp
qed

subsection \<open>Construction\<close>

lemma select_weight_known:
  assumes "weight_selection_algo s \<in> {''random'', ''ols'', ''gpi-ls''}"
  shows "\<exists>w s'. select_weight K a s = Inr (w, s')"
  using assms by (auto simp: select_weight_def split: prod.splits)

text \<open>
  C7. Construction with a strategy name other than \<open>random\<close>, \<open>ols\<close> and
  \<open>gpi-ls\<close> fails with the \<^verbatim>\<open>AssertionError\<close> of the constructor's check;
  with one of the three it succeeds and keeps the name given (no default takes its
  place). So weight selection, in any state that still has the constructed
  coordinator's strategy name, always finds a branch: the unbound-variable failure of
  an unknown name is not reachable.
\<close>

theorem init_rejects_unknown_strategy:
  "(algo \<notin> {''random'', ''ols'', ''gpi-ls''}
      \<longrightarrow> init K d algo g t l h e = Inl AssertionError)
   \<and> (algo \<in> {''random'', ''ols'', ''gpi-ls''}
      \<longrightarrow> (\<exists>s. init K d algo g t l h e = Inr s \<and> weight_selection_algo s = algo))
   \<and> (\<forall>s. init K d algo g t l h e = Inr s
      \<longrightarrow> (\<forall>s' a. weight_selection_algo s' = weight_selection_algo s
             \<longrightarrow> (\<exists>w s''. select_weight K a s' = Inr (w, s''))))"
proof (intro conjI impI allI)
  assume "algo \<notin> {''random'', ''ols'', ''gpi-ls''}"
  then show "init K d algo g t l h e = Inl AssertionError"
    by (simp add: init_def)
next
  assume "algo \<in> {''random'', ''ols'', ''gpi-ls''}"
  then show "\<exists>s. init K d algo g t l h e = Inr s \<and> weight_selection_algo s = algo"
    by (auto simp: init_def)
next
  fix s s' :: "('a, 'b) MPMOQLearning" and a
  assume i: "init K d algo g t l h e = Inr s"
    and w: "weight_selection_algo s' = weight_selection_algo s"
  from i have "weight_selection_algo s \<in> {''random'', ''ols'', ''gpi-ls''}"
    by (auto simp: init_def split: if_splits)
  with w show "\<exists>w s''. select_weight K a s' = Inr (w, s'')"
    by (intro select_weight_known) simp
qed

theorem init_rejects_unknown_strategy_witness:
  "init demo_collab 2 ''greedy'' False True False demo_heap 0 = Inl AssertionError
   \<and> (\<exists>s. init demo_collab 2 ''gpi-ls'' False True False demo_heap 0 = Inr s
          \<and> weight_selection_algo s = ''gpi-ls'')"
  using init_rejects_unknown_strategy[of "''greedy''" demo_collab 2 False True False demo_heap 0]
    init_rejects_unknown_strategy[of "''gpi-ls''" demo_collab 2 False True False demo_heap 0]
  by simp

subsection \<open>The training loop\<close>

lemma subseq_set_mono: "subseq xs ys \<Longrightarrow> set xs \<subseteq> set ys"
  by (induction rule: list_emb.induct) auto

lemma list_pop_zip:
  assumes "length xs = length ys" and "list_pop xs i = Inr (x, xs')"
  shows "\<exists>y ys'. list_pop ys i = Inr (y, ys') \<and> length xs' = length ys'
           \<and> list_pop (zip xs ys) i = Inr ((x, y), zip xs' ys')"
  using assms
  by (auto simp: list_pop_def Let_def take_zip drop_zip min_def split: if_splits)

lemma pop_each_zip:
  assumes "length xs = length ys" and "pop_each xs ds = (None, xs')"
  shows "\<exists>ys'. pop_each ys ds = (None, ys') \<and> length xs' = length ys'
           \<and> pop_each (zip xs ys) ds = (None, zip xs' ys')"
  using assms
proof (induction ds arbitrary: xs ys)
  case Nil
  then show ?case by simp
next
  case (Cons d ds)
  show ?case
  proof (cases "list_pop xs d")
    case (Inl e)
    with Cons.prems show ?thesis by simp
  next
    case (Inr q)
    obtain x xs1 where q: "q = (x, xs1)" by (cases q)
    from list_pop_zip[OF Cons.prems(1) Inr[unfolded q]]
    obtain y ys1 where y: "list_pop ys d = Inr (y, ys1)" "length xs1 = length ys1"
      "list_pop (zip xs ys) d = Inr ((x, y), zip xs1 ys1)" by blast
    from Cons.prems(2) Inr q have "pop_each xs1 ds = (None, xs')" by simp
    from Cons.IH[OF y(2) this] y show ?thesis by simp
  qed
qed

lemma aligned_iff:
  "aligned K s \<longleftrightarrow>
     length (policies s) = length (ccs K (linear_support s)) \<and>
     (\<forall>i<length (policies s).
        (policies s ! i, ccs K (linear_support s) ! i) \<in> set (eval_log s))"
  by (auto simp: aligned_def list_all_length)

lemma aligned_set:
  "aligned K s \<longleftrightarrow>
     length (policies s) = length (ccs K (linear_support s)) \<and>
     set (zip (policies s) (ccs K (linear_support s))) \<subseteq> set (eval_log s)"
  by (auto simp: aligned_def list_all_iff)

lemma select_weight_frame:
  assumes "select_weight K a s = Inr (w, s1)"
  shows "s1 = s\<lparr>linear_support := linear_support s1, world := world s1\<rparr>"
  using assms by (auto simp: select_weight_def split: if_splits prod.splits)

lemma select_weight_ccs:
  assumes "frontier_contract K" and "select_weight K a s = Inr (w, s1)"
  shows "ccs K (linear_support s1) = ccs K (linear_support s)"
proof -
  from assms(1) have nw: "ccs K (fst (snd (next_weight K fs algo g rep e))) = ccs K fs"
    for fs algo g rep e
    by (simp add: frontier_contract_def)
  from assms(2) show ?thesis
    by (auto simp: select_weight_def split: if_splits prod.splits
        dest: arg_cong[where f="\<lambda>x. ccs K (fst (snd x))"] simp: nw)
qed

lemma select_weight_random:
  assumes "weight_selection_algo s = ''random''" and "select_weight K a s = Inr (w, s1)"
  shows "w = fst (random_weights K (reward_dim s) (world s))"
  using assms by (auto simp: select_weight_def split: prod.splits)

lemma transfer_frame:
  assumes "transfer K s w na = Inr (na', s')"
  shows "s' = s\<lparr>mem := mem s'\<rparr> \<and> na' = na\<lparr>q_table := q_table na'\<rparr>"
  using assms by (auto simp: transfer_def split: if_splits sum.splits prod.splits)

lemma log_front_frame:
  assumes "log_front K a ew s = Inr s'"
  shows "s' = s\<lparr>world := world s'\<rparr>"
  using assms by (auto simp: log_front_def split: if_splits sum.splits prod.splits)

lemma train_iteration_Inr:
  assumes "train_iteration K a ew it s = Inr s'"
  obtains w s1 new_agent1 s3 new_agent h5 e5 v e6 rm fs7 s8 where
    "select_weight K a s = Inr (w, s1)"
    "transfer K (s1\<lparr>mem := snd (MOQLearning_init it w (mem s1))\<rparr>) w
        (fst (MOQLearning_init it w (mem s1))) = Inr (new_agent1, s3)"
    "agent_train K (new_agent1\<lparr>agent_global_step := global_step s3\<rparr>)
        (timesteps_per_iteration a) (mem s3) (world s3) = (new_agent, h5, e5)"
    "policy_evaluation_mo K (agent_eval K new_agent h5) w (num_episodes_eval a) e5 = Inr (v, e6)"
    "add_solution K (linear_support s3) v w = (rm, fs7)"
    "delete_policies
       (s3\<lparr>policies := policies s3 @ [new_agent], global_step := agent_global_step new_agent,
           mem := h5, linear_support := fs7, world := e6,
           eval_log := eval_log s3 @ [(new_agent, v)]\<rparr>) rm = (None, s8)"
    "log_front K a ew s8 = Inr s'"
proof -
  from assms obtain w s1 where sw: "select_weight K a s = Inr (w, s1)"
    by (auto simp: train_iteration_def split: sum.splits)
  obtain na0 h2 where mi: "MOQLearning_init it w (mem s1) = (na0, h2)"
    by (cases "MOQLearning_init it w (mem s1)")
  from assms sw mi obtain new_agent1 s3 where
    tr: "transfer K (s1\<lparr>mem := h2\<rparr>) w na0 = Inr (new_agent1, s3)"
    by (auto simp: train_iteration_def split: sum.splits)
  obtain new_agent h5 e5 where at: "agent_train K (new_agent1\<lparr>agent_global_step := global_step s3\<rparr>)
        (timesteps_per_iteration a) (mem s3) (world s3) = (new_agent, h5, e5)"
    by (cases "agent_train K (new_agent1\<lparr>agent_global_step := global_step s3\<rparr>)
        (timesteps_per_iteration a) (mem s3) (world s3)")
  from assms sw mi tr at obtain v e6 where
    pe: "policy_evaluation_mo K (agent_eval K new_agent h5) w (num_episodes_eval a) e5 = Inr (v, e6)"
    by (auto simp: train_iteration_def Let_def split: sum.splits)
  obtain rm fs7 where ad: "add_solution K (linear_support s3) v w = (rm, fs7)"
    by (cases "add_solution K (linear_support s3) v w")
  let ?s6 = "s3\<lparr>policies := policies s3 @ [new_agent], global_step := agent_global_step new_agent,
           mem := h5, linear_support := fs7, world := e6,
           eval_log := eval_log s3 @ [(new_agent, v)]\<rparr>"
  obtain r s8 where dp: "delete_policies ?s6 rm = (r, s8)"
    by (cases "delete_policies ?s6 rm")
  from assms sw mi tr at pe ad dp have "r = None \<and> log_front K a ew s8 = Inr s'"
    by (auto simp: train_iteration_def Let_def split: option.splits)
  with sw mi tr at pe ad dp that show thesis by simp
qed

subsection \<open>The small instance keeps the contracts\<close>

lemma demo_init: "init demo_collab 2 ''random'' False t False demo_heap 0 = Inr (demo_start t)"
  by (simp add: init_def demo_start_def demo_collab_def)

lemma demo_subpolicy_contract: "subpolicy_contract demo_collab"
  by (simp add: subpolicy_contract_def demo_collab_def demo_agent_train_def)

lemma demo_random_weights_contract: "random_weights_contract demo_collab"
  by (auto simp: random_weights_contract_def demo_collab_def list_all_iff)

lemma pop_last: "pop_each (xs @ [v]) (sorted_reverse [int (length xs)]) = (None, xs)"
  by (simp add: sorted_reverse_def list_pop_def)

lemma demo_add_solution_pops:
  "pop_each (fs @ [v]) (sorted_reverse (fst (demo_add_solution fs v w)))
     = (None, snd (demo_add_solution fs v w))"
proof (cases "list_ex (\<lambda>u. list_all2 (\<le>) v u) fs")
  case True
  then show ?thesis by (simp add: demo_add_solution_def pop_last)
next
  case False
  let ?P = "\<lambda>i. list_all2 (\<le>) (fs ! i) v"
  let ?rm = "map int (rev (filter ?P [0..<length fs]))"
  have d: "distinct ?rm" by (simp add: distinct_map)
  have r: "\<forall>i\<in>set ?rm. 0 \<le> i \<and> i < int (length (fs @ [v]))" by auto
  have set_rm: "set ?rm = int ` {i. i < length fs \<and> ?P i}" by auto
  have a: "nths fs {k. int k \<notin> set ?rm} = nths fs {i. i < length fs \<and> \<not> ?P i}"
    by (rule nths_cong_below) (auto simp: set_rm)
  have b: "{j. int (j + length fs) \<notin> set ?rm} = UNIV" by (auto simp: set_rm)
  have "nths (fs @ [v]) {k. int k \<notin> set ?rm}
      = nths fs {k. int k \<notin> set ?rm} @ nths [v] {j. int (j + length fs) \<notin> set ?rm}"
    by (simp add: nths_append)
  also have "\<dots> = filter (\<lambda>u. \<not> list_all2 (\<le>) u v) fs @ [v]"
    unfolding a b by (simp add: filter_eq_nths)
  finally have "pop_each (fs @ [v]) (sorted_reverse ?rm)
      = (None, filter (\<lambda>u. \<not> list_all2 (\<le>) u v) fs @ [v])"
    using pop_each_sorted_reverse[OF d r] by simp
  with False show ?thesis by (simp add: demo_add_solution_def)
qed

lemma demo_frontier_contract: "frontier_contract demo_collab"
  by (simp add: frontier_contract_def demo_collab_def demo_add_solution_pops)

lemma demo_run:
  "case train demo_collab demo_args (demo_start False) of
     Inl x \<Rightarrow> False
   | Inr s \<Rightarrow> map agent_id (policies s) = [1, 2] \<and> map weights (policies s) = [[0, 1], [1, 0]]
       \<and> linear_support s = [[0, 23], [34, 0]] \<and> global_step s = 30"
  by code_simp

lemma delete_policies_None:
  assumes "delete_policies s idx = (None, s')"
  shows "s' = s\<lparr>policies := policies s'\<rparr>"
    and "pop_each (policies s) (sorted_reverse idx) = (None, policies s')"
  using assms by (auto simp: delete_policies_def split: prod.splits)

lemma init_aligned:
  assumes "frontier_contract K" and "init K d algo g t l h e = Inr s"
  shows "aligned K s"
proof -
  from assms(1) have "ccs K (LinearSupport_init K d) = []"
    by (simp add: frontier_contract_def)
  with assms(2) show ?thesis
    by (auto simp: init_def aligned_def split: if_splits)
qed

lemma train_iteration_aligned:
  assumes fc: "frontier_contract K" and al: "aligned K s"
    and ti: "train_iteration K a ew it s = Inr s'"
  shows "aligned K s'
         \<and> (\<exists>p v w e e'. eval_log s' = eval_log s @ [(p, v)]
               \<and> policy_evaluation_mo K (agent_eval K p (mem s')) w (num_episodes_eval a) e
                    = Inr (v, e'))"
proof -
  from ti obtain w s1 new_agent1 s3 new_agent h5 e5 v e6 rm fs7 s8 where
    sw: "select_weight K a s = Inr (w, s1)" and
    tr: "transfer K (s1\<lparr>mem := snd (MOQLearning_init it w (mem s1))\<rparr>) w
        (fst (MOQLearning_init it w (mem s1))) = Inr (new_agent1, s3)" and
    pe: "policy_evaluation_mo K (agent_eval K new_agent h5) w (num_episodes_eval a) e5
        = Inr (v, e6)" and
    ad: "add_solution K (linear_support s3) v w = (rm, fs7)" and
    dp: "delete_policies
       (s3\<lparr>policies := policies s3 @ [new_agent], global_step := agent_global_step new_agent,
           mem := h5, linear_support := fs7, world := e6,
           eval_log := eval_log s3 @ [(new_agent, v)]\<rparr>) rm = (None, s8)" and
    lf: "log_front K a ew s8 = Inr s'"
    by (rule train_iteration_Inr)
  note f1 = select_weight_frame[OF sw]
  note f3 = transfer_frame[OF tr, THEN conjunct1]
  note f8 = delete_policies_None(1)[OF dp]
  note f9 = log_front_frame[OF lf]
  have p1: "policies s1 = policies s" and l1: "eval_log s1 = eval_log s"
    using arg_cong[OF f1, of policies] arg_cong[OF f1, of eval_log] by simp_all
  have p3: "policies s3 = policies s" and l3: "eval_log s3 = eval_log s"
    and fs3: "linear_support s3 = linear_support s1"
    using arg_cong[OF f3, of policies] arg_cong[OF f3, of eval_log]
      arg_cong[OF f3, of linear_support] p1 l1 by simp_all
  have c3: "ccs K (linear_support s3) = ccs K (linear_support s)"
    using select_weight_ccs[OF fc sw] fs3 by simp
  have l8: "eval_log s8 = eval_log s @ [(new_agent, v)]" and fs8: "linear_support s8 = fs7"
    and m8: "mem s8 = h5"
    using arg_cong[OF f8, of eval_log] arg_cong[OF f8, of linear_support]
      arg_cong[OF f8, of mem] l3 by simp_all
  have pp: "pop_each (policies s @ [new_agent]) (sorted_reverse rm) = (None, policies s8)"
    using delete_policies_None(2)[OF dp] p3 by simp
  from fc have "pop_each (ccs K (linear_support s3) @ [v])
        (sorted_reverse (fst (add_solution K (linear_support s3) v w)))
      = (None, ccs K (snd (add_solution K (linear_support s3) v w)))"
    unfolding frontier_contract_def by blast
  then have pc: "pop_each (ccs K (linear_support s) @ [v]) (sorted_reverse rm)
      = (None, ccs K fs7)"
    using ad c3 by simp
  from al have len: "length (policies s) = length (ccs K (linear_support s))"
    and sub: "set (zip (policies s) (ccs K (linear_support s))) \<subseteq> set (eval_log s)"
    by (simp_all add: aligned_set)
  have len': "length (policies s @ [new_agent]) = length (ccs K (linear_support s) @ [v])"
    using len by simp
  from pop_each_zip[OF len' pp] pc
  have len8: "length (policies s8) = length (ccs K fs7)"
    and pz: "pop_each (zip (policies s @ [new_agent]) (ccs K (linear_support s) @ [v]))
        (sorted_reverse rm) = (None, zip (policies s8) (ccs K fs7))"
    by auto
  have "set (zip (policies s8) (ccs K fs7))
      \<subseteq> set (zip (policies s @ [new_agent]) (ccs K (linear_support s) @ [v]))"
    using pop_each_subseq[OF pz] by (rule subseq_set_mono)
  also have "\<dots> \<subseteq> set (eval_log s @ [(new_agent, v)])"
    using sub len by auto
  finally have sub8: "set (zip (policies s8) (ccs K (linear_support s8))) \<subseteq> set (eval_log s8)"
    using l8 fs8 by simp
  have al8: "aligned K s8" using len8 sub8 fs8 by (simp add: aligned_set)
  have p9: "policies s' = policies s8" and l9: "eval_log s' = eval_log s8"
    and fs9: "linear_support s' = linear_support s8" and m9: "mem s' = mem s8"
    using arg_cong[OF f9, of policies] arg_cong[OF f9, of eval_log]
      arg_cong[OF f9, of linear_support] arg_cong[OF f9, of mem] by simp_all
  have "aligned K s'" using al8 p9 l9 fs9 by (simp add: aligned_def)
  moreover have "eval_log s' = eval_log s @ [(new_agent, v)]" using l9 l8 by simp
  moreover have "policy_evaluation_mo K (agent_eval K new_agent (mem s')) w
      (num_episodes_eval a) e5 = Inr (v, e6)"
    using pe m9 m8 by simp
  ultimately show ?thesis by blast
qed

lemma train_loop_aligned:
  assumes "frontier_contract K"
  shows "aligned K s \<Longrightarrow> train_loop K a ew its s = Inr s' \<Longrightarrow> aligned K s'"
proof (induction its arbitrary: s)
  case Nil
  then show ?case by simp
next
  case (Cons it its)
  from Cons.prems(2) obtain s1 where 1: "train_iteration K a ew it s = Inr s1"
    and 2: "train_loop K a ew its s1 = Inr s'"
    by (auto split: sum.splits)
  from train_iteration_aligned[OF assms Cons.prems(1) 1] have "aligned K s1" by simp
  from Cons.IH[OF this 2] show ?case .
qed

lemma train_Inr:
  assumes "train K a s = Inr s'"
  obtains s9 where
    "train_loop K a (equally_spaced_weights K (reward_dim s) (eval_weights_number_for_front a))
       [0..<num_iterations a] s = Inr s9"
    "s' = s9 \<or> s' = s9\<lparr>world := close_wandb K (world s9)\<rparr>"
  using assms by (auto simp: train_def split: sum.splits if_splits)

text \<open>
  C2. Let the frontier service keep its contract. A newly constructed coordinator is
  index-aligned; and from an index-aligned coordinator, at the end of an iteration of
  \<open>train\<close> (after \<open>delete_policies\<close> has been applied to the indices returned by
  \<open>add_solution\<close>), at the end of any number of iterations, and when \<open>train\<close>
  returns, the pool and the frontier have the same length and each pool entry is a
  policy whose evaluation returned the frontier vector at its position. The evaluation
  log grows by one entry per iteration: the new policy with the value vector that
  \<open>policy_evaluation_mo\<close> returned for it.
\<close>

theorem train_keeps_pool_aligned:
  assumes "frontier_contract K"
  shows "(init K d algo g t l h e = Inr s0 \<longrightarrow> aligned K s0)
         \<and> (aligned K s \<and> train_iteration K a ew it s = Inr s1
              \<longrightarrow> length (policies s1) = length (ccs K (linear_support s1))
                \<and> (\<forall>i<length (policies s1).
                      (policies s1 ! i, ccs K (linear_support s1) ! i) \<in> set (eval_log s1))
                \<and> (\<exists>p v w e e'. eval_log s1 = eval_log s @ [(p, v)]
                      \<and> policy_evaluation_mo K (agent_eval K p (mem s1)) w
                            (num_episodes_eval a) e = Inr (v, e')))
         \<and> (aligned K s \<and> train_loop K a ew its s = Inr s2 \<longrightarrow> aligned K s2)
         \<and> (aligned K s \<and> train K a s = Inr s3
              \<longrightarrow> length (policies s3) = length (ccs K (linear_support s3))
                \<and> (\<forall>i<length (policies s3).
                      (policies s3 ! i, ccs K (linear_support s3) ! i) \<in> set (eval_log s3)))"
proof (intro conjI impI)
  assume "init K d algo g t l h e = Inr s0"
  with assms show "aligned K s0" by (rule init_aligned)
next
  assume h: "aligned K s \<and> train_iteration K a ew it s = Inr s1"
  from train_iteration_aligned[OF assms, of s a ew it s1] h
  have al: "aligned K s1" and ex: "\<exists>p v w e e'. eval_log s1 = eval_log s @ [(p, v)]
      \<and> policy_evaluation_mo K (agent_eval K p (mem s1)) w (num_episodes_eval a) e = Inr (v, e')"
    by simp_all
  from al show "length (policies s1) = length (ccs K (linear_support s1))"
    by (simp add: aligned_iff)
  from al show "\<forall>i<length (policies s1).
      (policies s1 ! i, ccs K (linear_support s1) ! i) \<in> set (eval_log s1)"
    by (simp add: aligned_iff)
  from ex show "\<exists>p v w e e'. eval_log s1 = eval_log s @ [(p, v)]
      \<and> policy_evaluation_mo K (agent_eval K p (mem s1)) w (num_episodes_eval a) e = Inr (v, e')" .
next
  assume "aligned K s \<and> train_loop K a ew its s = Inr s2"
  then show "aligned K s2" using train_loop_aligned[OF assms] by blast
next
  assume h: "aligned K s \<and> train K a s = Inr s3"
  then obtain s9 where l: "train_loop K a
      (equally_spaced_weights K (reward_dim s) (eval_weights_number_for_front a))
      [0..<num_iterations a] s = Inr s9"
    and c: "s3 = s9 \<or> s3 = s9\<lparr>world := close_wandb K (world s9)\<rparr>"
    by (auto elim: train_Inr)
  from train_loop_aligned[OF assms _ l] h have "aligned K s9" by simp
  with c have al: "aligned K s3" by (auto simp: aligned_def)
  from al show "length (policies s3) = length (ccs K (linear_support s3))"
    by (simp add: aligned_iff)
  from al show "\<forall>i<length (policies s3).
      (policies s3 ! i, ccs K (linear_support s3) ! i) \<in> set (eval_log s3)"
    by (simp add: aligned_iff)
qed

theorem train_keeps_pool_aligned_witness:
  "\<exists>s. train demo_collab demo_args (demo_start False) = Inr s
      \<and> map agent_id (policies s) = [1, 2]
      \<and> ccs demo_collab (linear_support s) = [[0, 23], [34, 0]]
      \<and> length (policies s) = length (ccs demo_collab (linear_support s))
      \<and> (\<forall>i<length (policies s).
            (policies s ! i, ccs demo_collab (linear_support s) ! i) \<in> set (eval_log s))"
proof -
  from demo_run obtain s where run: "train demo_collab demo_args (demo_start False) = Inr s"
    and v: "map agent_id (policies s) = [1, 2]" "linear_support s = [[0, 23], [34, 0]]"
    by (cases "train demo_collab demo_args (demo_start False)") auto
  have al: "aligned demo_collab (demo_start False)"
    using train_keeps_pool_aligned[OF demo_frontier_contract,
        of 2 "''random''" False False False demo_heap 0 "demo_start False"]
    by (simp add: demo_init)
  from train_keeps_pool_aligned[OF demo_frontier_contract,
      of 2 "''random''" False False False demo_heap 0 "demo_start False" "demo_start False"
         demo_args "[]" 0 _ "[]" "demo_start False" s] al run
  have "length (policies s) = length (ccs demo_collab (linear_support s))
      \<and> (\<forall>i<length (policies s).
            (policies s ! i, ccs demo_collab (linear_support s) ! i) \<in> set (eval_log s))"
    by simp
  with run v show ?thesis by (auto simp: demo_collab_def)
qed

lemma train_iteration_counts:
  assumes sc: "subpolicy_contract K"
    and ti: "train_iteration K a ew it s = Inr s'"
  shows "global_step s' = global_step s + timesteps_per_iteration a"
    and "length (policies s') \<le> Suc (length (policies s))"
    and "reward_dim s' = reward_dim s"
    and "weight_selection_algo s' = weight_selection_algo s"
    and "\<exists>w s1. select_weight K a s = Inr (w, s1)
           \<and> (\<forall>p\<in>set (policies s'). p \<in> set (policies s) \<or> weights p = w)"
proof -
  from ti obtain w s1 new_agent1 s3 new_agent h5 e5 v e6 rm fs7 s8 where
    sw: "select_weight K a s = Inr (w, s1)" and
    tr: "transfer K (s1\<lparr>mem := snd (MOQLearning_init it w (mem s1))\<rparr>) w
        (fst (MOQLearning_init it w (mem s1))) = Inr (new_agent1, s3)" and
    at: "agent_train K (new_agent1\<lparr>agent_global_step := global_step s3\<rparr>)
        (timesteps_per_iteration a) (mem s3) (world s3) = (new_agent, h5, e5)" and
    dp: "delete_policies
       (s3\<lparr>policies := policies s3 @ [new_agent], global_step := agent_global_step new_agent,
           mem := h5, linear_support := fs7, world := e6,
           eval_log := eval_log s3 @ [(new_agent, v)]\<rparr>) rm = (None, s8)" and
    lf: "log_front K a ew s8 = Inr s'"
    by (rule train_iteration_Inr)
  note f1 = select_weight_frame[OF sw]
  note f3 = transfer_frame[OF tr, THEN conjunct1]
  note n3 = transfer_frame[OF tr, THEN conjunct2]
  note f8 = delete_policies_None(1)[OF dp]
  note f9 = log_front_frame[OF lf]
  have s1: "policies s1 = policies s" "global_step s1 = global_step s"
    "reward_dim s1 = reward_dim s" "weight_selection_algo s1 = weight_selection_algo s"
    using arg_cong[OF f1, of policies] arg_cong[OF f1, of global_step]
      arg_cong[OF f1, of reward_dim] arg_cong[OF f1, of weight_selection_algo] by simp_all
  have s3: "policies s3 = policies s" "global_step s3 = global_step s"
    "reward_dim s3 = reward_dim s" "weight_selection_algo s3 = weight_selection_algo s"
    using arg_cong[OF f3, of policies] arg_cong[OF f3, of global_step]
      arg_cong[OF f3, of reward_dim] arg_cong[OF f3, of weight_selection_algo] s1 by simp_all
  have w1: "weights new_agent1 = w"
    using arg_cong[OF n3, of weights] by (simp add: MOQLearning_init_def)
  from sc have tc: "agent_global_step (fst (agent_train K p n h e)) = agent_global_step p + n"
    "weights (fst (agent_train K p n h e)) = weights p" for p n h e
    by (simp_all add: subpolicy_contract_def)
  from tc[of "new_agent1\<lparr>agent_global_step := global_step s3\<rparr>" "timesteps_per_iteration a"
      "mem s3" "world s3"] at
  have na: "agent_global_step new_agent = global_step s + timesteps_per_iteration a"
    "weights new_agent = w"
    using s3 w1 by simp_all
  have s8: "global_step s8 = global_step s + timesteps_per_iteration a"
    "reward_dim s8 = reward_dim s" "weight_selection_algo s8 = weight_selection_algo s"
    using arg_cong[OF f8, of global_step] arg_cong[OF f8, of reward_dim]
      arg_cong[OF f8, of weight_selection_algo] s3 na by simp_all
  have pp: "pop_each (policies s @ [new_agent]) (sorted_reverse rm) = (None, policies s8)"
    using delete_policies_None(2)[OF dp] s3 by simp
  have sub: "set (policies s8) \<subseteq> set (policies s @ [new_agent])"
    using pop_each_subseq[OF pp] by (rule subseq_set_mono)
  have len: "length (policies s8) \<le> Suc (length (policies s))"
    using pop_each_length[OF pp] by simp
  have s9: "policies s' = policies s8" "global_step s' = global_step s8"
    "reward_dim s' = reward_dim s8" "weight_selection_algo s' = weight_selection_algo s8"
    using arg_cong[OF f9, of policies] arg_cong[OF f9, of global_step]
      arg_cong[OF f9, of reward_dim] arg_cong[OF f9, of weight_selection_algo] by simp_all
  show "global_step s' = global_step s + timesteps_per_iteration a" using s9 s8 by simp
  show "length (policies s') \<le> Suc (length (policies s))" using s9 len by simp
  show "reward_dim s' = reward_dim s" using s9 s8 by simp
  show "weight_selection_algo s' = weight_selection_algo s" using s9 s8 by simp
  have "\<forall>p\<in>set (policies s'). p \<in> set (policies s) \<or> weights p = w"
    using sub s9 na by auto
  with sw show "\<exists>w s1. select_weight K a s = Inr (w, s1)
           \<and> (\<forall>p\<in>set (policies s'). p \<in> set (policies s) \<or> weights p = w)"
    by blast
qed

lemma train_loop_counts:
  assumes sc: "subpolicy_contract K" and rc: "random_weights_contract K"
  shows "weight_selection_algo s = ''random'' \<Longrightarrow> train_loop K a ew its s = Inr s' \<Longrightarrow>
     global_step s' = global_step s + length its * timesteps_per_iteration a
     \<and> length (policies s') \<le> length (policies s) + length its
     \<and> reward_dim s' = reward_dim s
     \<and> (\<forall>p\<in>set (policies s'). p \<in> set (policies s)
           \<or> (length (weights p) = reward_dim s \<and> (\<forall>x\<in>set (weights p). 0 \<le> x)))"
proof (induction its arbitrary: s)
  case Nil
  then show ?case by simp
next
  case (Cons it its)
  from Cons.prems(2) obtain s1 where 1: "train_iteration K a ew it s = Inr s1"
    and 2: "train_loop K a ew its s1 = Inr s'"
    by (auto split: sum.splits)
  note c = train_iteration_counts[OF sc 1]
  from c(5) obtain w t where sw: "select_weight K a s = Inr (w, t)"
    and ws: "\<forall>p\<in>set (policies s1). p \<in> set (policies s) \<or> weights p = w" by blast
  from rc have "length (fst (random_weights K (reward_dim s) (world s))) = reward_dim s"
    "\<forall>x\<in>set (fst (random_weights K (reward_dim s) (world s))). 0 \<le> x"
    by (simp_all add: random_weights_contract_def list_all_iff)
  with select_weight_random[OF Cons.prems(1) sw]
  have w: "length w = reward_dim s" "\<forall>x\<in>set w. 0 \<le> x" by simp_all
  have r1: "weight_selection_algo s1 = ''random''" using c(4) Cons.prems(1) by simp
  from Cons.IH[OF r1 2] have ih:
    "global_step s' = global_step s1 + length its * timesteps_per_iteration a"
    "length (policies s') \<le> length (policies s1) + length its"
    "reward_dim s' = reward_dim s1"
    "\<forall>p\<in>set (policies s'). p \<in> set (policies s1)
           \<or> (length (weights p) = reward_dim s1 \<and> (\<forall>x\<in>set (weights p). 0 \<le> x))"
    by simp_all
  have "\<forall>p\<in>set (policies s'). p \<in> set (policies s)
           \<or> (length (weights p) = reward_dim s \<and> (\<forall>x\<in>set (weights p). 0 \<le> x))"
  proof
    fix p assume "p \<in> set (policies s')"
    with ih(4) c(3) have "p \<in> set (policies s1)
        \<or> (length (weights p) = reward_dim s \<and> (\<forall>x\<in>set (weights p). 0 \<le> x))" by auto
    with ws w show "p \<in> set (policies s)
        \<or> (length (weights p) = reward_dim s \<and> (\<forall>x\<in>set (weights p). 0 \<le> x))" by auto
  qed
  with ih c show ?case by (simp add: algebra_simps)
qed

text \<open>
  C6. Let training a sub-policy advance its step counter by the time steps asked for
  and keep its weight vector, and let \<open>random_weights\<close> return non-negative vectors
  of the dimension asked for. For a coordinator constructed with two objectives, the
  random strategy and no Q-table transfer, when \<open>train\<close> returns from three
  iterations the pool has at most three members, the global step counter is three times
  \<open>timesteps_per_iteration\<close>, and every pool member's weight vector has two
  non-negative components.
\<close>

theorem train_three_random_iterations:
  assumes "subpolicy_contract K" and "random_weights_contract K"
    and "init K 2 ''random'' g False l h e = Inr s0"
    and "num_iterations a = 3"
    and "train K a s0 = Inr s'"
  shows "length (policies s') \<le> 3
         \<and> global_step s' = 3 * timesteps_per_iteration a
         \<and> (\<forall>p\<in>set (policies s'). length (weights p) = 2 \<and> (\<forall>x\<in>set (weights p). 0 \<le> x))"
proof -
  from assms(3) have s0: "policies s0 = []" "global_step s0 = 0" "reward_dim s0 = 2"
    "weight_selection_algo s0 = ''random''"
    by (auto simp: init_def)
  from assms(5) obtain s9 where l: "train_loop K a
      (equally_spaced_weights K (reward_dim s0) (eval_weights_number_for_front a))
      [0..<num_iterations a] s0 = Inr s9"
    and c: "s' = s9 \<or> s' = s9\<lparr>world := close_wandb K (world s9)\<rparr>"
    by (auto elim: train_Inr)
  from train_loop_counts[OF assms(1,2) s0(4) l] s0 assms(4)
  have "length (policies s9) \<le> 3 \<and> global_step s9 = 3 * timesteps_per_iteration a
      \<and> (\<forall>p\<in>set (policies s9). length (weights p) = 2 \<and> (\<forall>x\<in>set (weights p). 0 \<le> x))"
    by simp
  with c show ?thesis by auto
qed

theorem train_three_random_iterations_witness:
  "\<exists>s. train demo_collab demo_args (demo_start False) = Inr s
      \<and> length (policies s) \<le> 3
      \<and> global_step s = 3 * timesteps_per_iteration demo_args
      \<and> list_all (\<lambda>p. length (weights p) = 2 \<and> list_all (\<lambda>x. 0 \<le> x) (weights p)) (policies s)"
proof -
  from demo_run obtain s where run: "train demo_collab demo_args (demo_start False) = Inr s"
    by (cases "train demo_collab demo_args (demo_start False)") auto
  have n: "num_iterations demo_args = 3" by (simp add: demo_args_def)
  from train_three_random_iterations[OF demo_subpolicy_contract demo_random_weights_contract
      demo_init n run]
  show ?thesis using run by (auto simp: list_all_iff)
qed

subsection \<open>Warm start: copying a value table\<close>

lemma deepcopy_items_spec:
  assumes "deepcopy_items kvs memo h = (kvs', memo', h')"
    and "b \<le> fresh h"
    and "\<forall>(k, a)\<in>set kvs. a < b"
    and "\<forall>(a, a')\<in>set memo. a < b \<and> b \<le> a' \<and> a' < fresh h \<and> arrays h a' = arrays h a"
  shows "fresh h \<le> fresh h' \<and> dicts h' = dicts h
         \<and> (\<forall>x<fresh h. arrays h' x = arrays h x)
         \<and> (\<forall>(a, a')\<in>set memo'. a < b \<and> b \<le> a' \<and> a' < fresh h'
               \<and> arrays h' a' = arrays h' a)
         \<and> list_all2 (\<lambda>(k, a) (k', a'). k' = k \<and> a < b \<and> b \<le> a' \<and> a' < fresh h'
               \<and> arrays h' a' = arrays h a) kvs kvs'"
  using assms
proof (induction kvs arbitrary: memo h kvs' memo' h')
  case Nil
  then show ?case by auto
next
  case (Cons ka kvs)
  obtain k a where ka: "ka = (k, a)" by (cases ka)
  from Cons.prems(3) ka have ab: "a < b" and rest: "\<forall>(k, a)\<in>set kvs. a < b" by auto
  show ?case
  proof (cases "map_of memo a")
    case (Some a')
    obtain kvs1 memo1 h1 where rc: "deepcopy_items kvs memo h = (kvs1, memo1, h1)"
      by (cases "deepcopy_items kvs memo h")
    from Cons.prems(1) ka Some rc have res: "kvs' = (k, a') # kvs1" "memo' = memo1" "h' = h1"
      by simp_all
    note ih = Cons.IH[OF rc Cons.prems(2) rest Cons.prems(4)]
    from Some have "(a, a') \<in> set memo" by (rule map_of_SomeD)
    with Cons.prems(4) have m: "b \<le> a'" "a' < fresh h" "arrays h a' = arrays h a" by auto
    from ih m have "arrays h1 a' = arrays h a" "a' < fresh h1" by auto
    with ih m ab res ka show ?thesis by simp
  next
    case None
    let ?a' = "fresh h"
    let ?h1 = "h\<lparr>arrays := (arrays h)(?a' := arrays h a), fresh := Suc ?a'\<rparr>"
    obtain kvs1 memo1 h2 where rc: "deepcopy_items kvs ((a, ?a') # memo) ?h1 = (kvs1, memo1, h2)"
      by (cases "deepcopy_items kvs ((a, ?a') # memo) ?h1")
    from Cons.prems(1) ka None rc have res: "kvs' = (k, ?a') # kvs1" "memo' = memo1" "h' = h2"
      by (simp_all add: Let_def)
    have b1: "b \<le> fresh ?h1" using Cons.prems(2) by simp
    have ne: "a \<noteq> ?a'" using ab Cons.prems(2) by simp
    have m1: "\<forall>(c, c')\<in>set ((a, ?a') # memo).
        c < b \<and> b \<le> c' \<and> c' < fresh ?h1 \<and> arrays ?h1 c' = arrays ?h1 c"
    proof -
      have "\<forall>(c, c')\<in>set memo.
          c < b \<and> b \<le> c' \<and> c' < fresh ?h1 \<and> arrays ?h1 c' = arrays ?h1 c"
        using Cons.prems(4) Cons.prems(2) by fastforce
      with ab ne Cons.prems(2) show ?thesis by simp
    qed
    note ih = Cons.IH[OF rc b1 rest m1]
    from ih have f: "fresh h \<le> fresh h2" and d: "dicts h2 = dicts h" by simp_all
    from ih have old: "\<forall>x<fresh h. arrays h2 x = arrays h x" by simp
    from ih have head: "arrays h2 ?a' = arrays h a" "?a' < fresh h2" by auto
    from ih have mm: "\<forall>(a, a')\<in>set memo1. a < b \<and> b \<le> a' \<and> a' < fresh h2
        \<and> arrays h2 a' = arrays h2 a" by simp
    from ih have l1: "list_all2 (\<lambda>(k, a) (k', a'). k' = k \<and> a < b \<and> b \<le> a' \<and> a' < fresh h2
        \<and> arrays h2 a' = arrays ?h1 a) kvs kvs1" by simp
    have l2: "list_all2 (\<lambda>(k, a) (k', a'). k' = k \<and> a < b \<and> b \<le> a' \<and> a' < fresh h2
        \<and> arrays h2 a' = arrays h a) kvs kvs1"
      using l1 by (rule list_all2_mono) (use Cons.prems(2) in auto)
    from f d old head mm l2 ab Cons.prems(2) res ka show ?thesis by simp
  qed
qed

lemma table_contents_cong:
  assumes "dicts h2 d = dicts h1 d" and "\<forall>x\<in>snd ` set (dicts h1 d). arrays h2 x = arrays h1 x"
  shows "table_contents h2 d = table_contents h1 d"
  using assms by (auto simp: table_contents_def)

lemma table_write_frame:
  assumes "x \<notin> table_objects h d"
  shows "table_contents (dict_write h x kvs) d = table_contents h d"
    and "table_contents (array_write h x m) d = table_contents h d"
  using assms
  by (force simp: table_contents_def table_objects_def dict_write_def array_write_def)+

lemma deepcopy_spec:
  assumes dc: "deepcopy h d = (d', h')"
    and alloc: "\<forall>x\<in>table_objects h d. x < fresh h"
  shows "d' = fresh h"
    and "fresh h < fresh h'"
    and "\<forall>x<fresh h. dicts h' x = dicts h x \<and> arrays h' x = arrays h x"
    and "table_contents h' d' = table_contents h d"
    and "\<forall>x\<in>table_objects h' d'. fresh h \<le> x"
proof -
  let ?h0 = "h\<lparr>dicts := (dicts h)(fresh h := []), fresh := Suc (fresh h)\<rparr>"
  obtain kvs' memo' h1 where it: "deepcopy_items (dicts h d) [] ?h0 = (kvs', memo', h1)"
    by (cases "deepcopy_items (dicts h d) [] ?h0")
  from dc it have d': "d' = fresh h" and h': "h' = h1\<lparr>dicts := (dicts h1)(fresh h := kvs')\<rparr>"
    by (auto simp: deepcopy_def Let_def)
  have src: "\<forall>(k, a)\<in>set (dicts h d). a < Suc (fresh h)"
    using alloc by (fastforce simp: table_objects_def)
  have "dicts ?h0 d = dicts h d" using alloc by (auto simp: table_objects_def)
  with it have it': "deepcopy_items (dicts ?h0 d) [] ?h0 = (kvs', memo', h1)" by simp
  from deepcopy_items_spec[OF it, of "Suc (fresh h)"] src
  have f: "Suc (fresh h) \<le> fresh h1" and dd: "dicts h1 = dicts ?h0"
    and old: "\<forall>x<Suc (fresh h). arrays h1 x = arrays h x"
    and l: "list_all2 (\<lambda>(k, a) (k', a'). k' = k \<and> a < Suc (fresh h) \<and> Suc (fresh h) \<le> a'
        \<and> a' < fresh h1 \<and> arrays h1 a' = arrays h a) (dicts h d) kvs'"
    by simp_all
  show "d' = fresh h" by (rule d')
  show "fresh h < fresh h'" using f h' by simp
  show "\<forall>x<fresh h. dicts h' x = dicts h x \<and> arrays h' x = arrays h x"
    using old dd h' by simp
  have "map (\<lambda>(k, a). (k, arrays h1 a)) kvs' = map (\<lambda>(k, a). (k, arrays h a)) (dicts h d)"
    using l by (induction rule: list_all2_induct) auto
  then show "table_contents h' d' = table_contents h d"
    using h' d' by (simp add: table_contents_def)
  have "\<forall>x\<in>snd ` set kvs'. fresh h \<le> x"
    using l by (induction rule: list_all2_induct) auto
  then show "\<forall>x\<in>table_objects h' d'. fresh h \<le> x"
    using h' d' by (auto simp: table_objects_def)
qed

lemma deepcopy_old_table:
  assumes dc: "deepcopy h d = (d', h')"
    and alloc: "\<forall>x\<in>table_objects h d. x < fresh h"
    and old: "\<forall>x\<in>table_objects h d0. x < fresh h"
  shows "table_contents h' d0 = table_contents h d0"
    and "table_objects h' d0 = table_objects h d0"
proof -
  note keep = deepcopy_spec(3)[OF dc alloc]
  from old have d0: "d0 < fresh h" by (simp add: table_objects_def)
  with keep have dd: "dicts h' d0 = dicts h d0" by simp
  from old have "\<forall>x\<in>snd ` set (dicts h d0). x < fresh h" by (simp add: table_objects_def)
  with keep have "\<forall>x\<in>snd ` set (dicts h d0). arrays h' x = arrays h x" by simp
  with dd show "table_contents h' d0 = table_contents h d0" by (rule table_contents_cong)
  from dd show "table_objects h' d0 = table_objects h d0" by (simp add: table_objects_def)
qed

text \<open>
  C5. With Q-table transfer enabled, a non-empty pool aligned in length with a frontier
  of vectors of the weight's dimension, and every pool member's table allocated, the
  warm start succeeds: the source is the pool member at the first position maximizing
  \<^verbatim>\<open>np.dot(w, v)\<close> over the frontier vectors \<open>v\<close>, by the values that
  \<^verbatim>\<open>np.dot\<close> returns; the new agent differs from the
  one given only in its table, which holds what the source's table holds; the transfer
  changes the coordinator's heap only, and no pool member's table contents; the new
  table shares no object with the source's table, so that a write to any object of
  either table leaves the contents of the other as they are.
\<close>

theorem transfer_copies_best_table:
  assumes tq: "transfer_q_table s" and ne: "policies s \<noteq> []"
    and len: "length (policies s) = length (ccs K (linear_support s))"
    and dim: "\<forall>v\<in>set (ccs K (linear_support s)). length v = length w"
    and al: "tables_allocated s"
  shows "\<exists>i new s'.
      transfer K s w new_agent = Inr (new, s')
      \<and> i < length (policies s)
      \<and> first_max (map (\<lambda>v. dot_value K w v) (ccs K (linear_support s))) i
      \<and> new = new_agent\<lparr>q_table := q_table new\<rparr> \<and> s' = s\<lparr>mem := mem s'\<rparr>
      \<and> table_contents (mem s') (q_table new)
          = table_contents (mem s) (q_table (policies s ! i))
      \<and> (\<forall>p\<in>set (policies s).
            table_contents (mem s') (q_table p) = table_contents (mem s) (q_table p))
      \<and> table_objects (mem s') (q_table new)
          \<inter> table_objects (mem s') (q_table (policies s ! i)) = {}
      \<and> (\<forall>x\<in>table_objects (mem s') (q_table new). \<forall>kvs m.
            table_contents (dict_write (mem s') x kvs) (q_table (policies s ! i))
              = table_contents (mem s') (q_table (policies s ! i))
            \<and> table_contents (array_write (mem s') x m) (q_table (policies s ! i))
              = table_contents (mem s') (q_table (policies s ! i)))
      \<and> (\<forall>x\<in>table_objects (mem s') (q_table (policies s ! i)). \<forall>kvs m.
            table_contents (dict_write (mem s') x kvs) (q_table new)
              = table_contents (mem s') (q_table new)
            \<and> table_contents (array_write (mem s') x m) (q_table new)
              = table_contents (mem s') (q_table new))"
proof -
  let ?ccs = "ccs K (linear_support s)"
  let ?ds = "map (\<lambda>v. dot_value K w v) ?ccs"
  have lc: "list_comp (\<lambda>v. np_dot (dot_value K) w v) ?ccs = Inr ?ds"
    using dim by (rule list_comp_np_dot_total)
  have "?ds \<noteq> []" using ne len by auto
  then obtain i where am: "np_argmax ?ds = Inr i" and fm: "first_max ?ds i"
    using np_argmax_first_max by blast
  from fm have i: "i < length (policies s)" by (simp add: first_max_iff len)
  let ?src = "policies s ! i"
  have src_in: "?src \<in> set (policies s)" using i by simp
  from al have alloc: "\<forall>p\<in>set (policies s). \<forall>x\<in>table_objects (mem s) (q_table p).
      x < fresh (mem s)"
    by (simp add: tables_allocated_def list_all_iff)
  with src_in have sa: "\<forall>x\<in>table_objects (mem s) (q_table ?src). x < fresh (mem s)" by blast
  obtain d' h' where dc: "deepcopy (mem s) (q_table ?src) = (d', h')"
    by (cases "deepcopy (mem s) (q_table ?src)")
  let ?new = "new_agent\<lparr>q_table := d'\<rparr>" and ?s' = "s\<lparr>mem := h'\<rparr>"
  have run: "transfer K s w new_agent = Inr (?new, ?s')"
    using tq ne lc am i dc by (simp add: transfer_def list_get_def)
  note sp = deepcopy_spec[OF dc sa]
  have copy: "table_contents h' d' = table_contents (mem s) (q_table ?src)" by (rule sp(4))
  have keep: "\<forall>p\<in>set (policies s).
      table_contents h' (q_table p) = table_contents (mem s) (q_table p)"
    using deepcopy_old_table(1)[OF dc sa] alloc by blast
  have so: "table_objects h' (q_table ?src) = table_objects (mem s) (q_table ?src)"
    using deepcopy_old_table(2)[OF dc sa sa] .
  have disj: "table_objects h' d' \<inter> table_objects h' (q_table ?src) = {}"
    using sp(5) sa so by fastforce
  have w1: "\<forall>x\<in>table_objects h' d'. \<forall>kvs m.
      table_contents (dict_write h' x kvs) (q_table ?src) = table_contents h' (q_table ?src)
      \<and> table_contents (array_write h' x m) (q_table ?src) = table_contents h' (q_table ?src)"
    using disj by (auto intro!: table_write_frame)
  have w2: "\<forall>x\<in>table_objects h' (q_table ?src). \<forall>kvs m.
      table_contents (dict_write h' x kvs) d' = table_contents h' d'
      \<and> table_contents (array_write h' x m) d' = table_contents h' d'"
    using disj by (auto intro!: table_write_frame)
  show ?thesis
    apply (rule exI[of _ i], rule exI[of _ ?new], rule exI[of _ ?s'])
    using run i fm copy keep disj w1 w2 by simp
qed

lemma demo_transfer_run:
  "case transfer demo_collab
          ((demo_pool False)\<lparr>mem := snd (MOQLearning_init 3 [1, 1] (mem (demo_pool False)))\<rparr>)
          [1, 1] (fst (MOQLearning_init 3 [1, 1] (mem (demo_pool False)))) of
     Inl x \<Rightarrow> False
   | Inr (new, s') \<Rightarrow>
       weights new = [1, 1] \<and> q_table new = 7
       \<and> table_contents (mem s') 7 = [([0], [[1, 0], [4, 0]])]
       \<and> table_contents (mem s') 0 = [([0], [[1, 0], [4, 0]])]
       \<and> table_contents (array_write (mem s') 8 [[5, 5], [6, 6]]) 7 = [([0], [[5, 5], [6, 6]])]
       \<and> table_contents (array_write (mem s') 8 [[5, 5], [6, 6]]) 0 = [([0], [[1, 0], [4, 0]])]
       \<and> table_contents (array_write (mem s') 3 [[5, 5], [6, 6]]) 7 = [([0], [[1, 0], [4, 0]])]"
  by code_simp

theorem transfer_copies_best_table_witness:
  "\<exists>new s'.
      transfer demo_collab
        ((demo_pool False)\<lparr>mem := snd (MOQLearning_init 3 [1, 1] (mem (demo_pool False)))\<rparr>)
        [1, 1] (fst (MOQLearning_init 3 [1, 1] (mem (demo_pool False)))) = Inr (new, s')
      \<and> q_table new = 7
      \<and> table_contents (mem s') (q_table new) = [([0], [[1, 0], [4, 0]])]
      \<and> table_contents (mem s') (q_table (policies (demo_pool False) ! 0))
           = [([0], [[1, 0], [4, 0]])]
      \<and> table_objects (mem s') (q_table new)
           \<inter> table_objects (mem s') (q_table (policies (demo_pool False) ! 0)) = {}
      \<and> table_contents (array_write (mem s') 8 [[5, 5], [6, 6]]) 0 = [([0], [[1, 0], [4, 0]])]
      \<and> table_contents (array_write (mem s') 3 [[5, 5], [6, 6]]) 7 = [([0], [[1, 0], [4, 0]])]"
proof -
  let ?s = "(demo_pool False)\<lparr>mem := snd (MOQLearning_init 3 [1, 1] (mem (demo_pool False)))\<rparr>"
  let ?na = "fst (MOQLearning_init 3 [1, 1] (mem (demo_pool False)))"
  have tq: "transfer_q_table ?s" and ne: "policies ?s \<noteq> []"
    by (simp_all add: demo_pool_def)
  have len: "length (policies ?s) = length (ccs demo_collab (linear_support ?s))"
    by (simp add: demo_pool_def demo_collab_def)
  have dim: "\<forall>v\<in>set (ccs demo_collab (linear_support ?s)). length v = length [1, 1 :: real]"
    by (simp add: demo_pool_def demo_collab_def)
  have al: "tables_allocated ?s"
    by (simp add: tables_allocated_def demo_pool_def demo_agent_def MOQLearning_init_def
        table_objects_def)
  from transfer_copies_best_table[OF tq ne len dim al, of ?na]
  obtain i new s' where t: "transfer demo_collab ?s [1, 1] ?na = Inr (new, s')"
    and fm: "first_max (map (\<lambda>v. dot_value demo_collab [1, 1] v)
        (ccs demo_collab (linear_support ?s))) i"
    and cp: "table_contents (mem s') (q_table new)
        = table_contents (mem ?s) (q_table (policies ?s ! i))"
    and dj: "table_objects (mem s') (q_table new)
        \<inter> table_objects (mem s') (q_table (policies ?s ! i)) = {}"
    by blast
  have "first_max (map (\<lambda>v. dot_value demo_collab [1, 1] v)
        (ccs demo_collab (linear_support ?s))) j \<longleftrightarrow> j = 0" for j
    by (auto simp: first_max_iff demo_pool_def demo_collab_def inner_product_def nth_Cons
        split: nat.splits)
  with fm have i0: "i = 0" by simp
  from demo_transfer_run t have c: "q_table new = 7"
    "table_contents (mem s') 7 = [([0], [[1, 0], [4, 0]])]"
    "table_contents (mem s') 0 = [([0], [[1, 0], [4, 0]])]"
    "table_contents (array_write (mem s') 8 [[5, 5], [6, 6]]) 0 = [([0], [[1, 0], [4, 0]])]"
    "table_contents (array_write (mem s') 3 [[5, 5], [6, 6]]) 7 = [([0], [[1, 0], [4, 0]])]"
    by simp_all
  have p0: "q_table (policies (demo_pool False) ! 0) = 0" "policies ?s = policies (demo_pool False)"
    by (simp_all add: demo_pool_def demo_agent_def)
  from t c dj i0 p0 show ?thesis by auto
qed

end
